theory Spec2Isabelle
  imports Main "HOL-Library.Sublist"
begin

section \<open>The browser driver and the session\<close>

text \<open>
  The suite drives a Selenium browser. The driver is the external collaborator of every
  function below: it is modelled as a record of capabilities over an arbitrary driver state
  \<open>'d\<close>, each call returning its answer together with the next driver state, so that a
  driver can answer every call differently (a page that loads lazily, a node that goes
  stale between two reads). Nodes (WebElements) are values of an arbitrary type \<open>'n\<close>.

  Exceptions are values of the type \<open>error\<close>; a call that can raise returns
  \<open>error + 'a\<close>. The calls on a node (the title lookup of a product tile, the scroll
  of a node into view, a click) and the polls of Selenium's expected conditions can fail
  with any error.
\<close>

datatype error =
    NoSuchElementException
  | StaleElementReferenceException
  | TimeoutException
  | WebDriverException
  | AssertionError
  | FileNotFoundError
  | JSONDecodeError
  | AttributeError
  | TypeError

type_synonym locator = "string \<times> string"

datatype condition =
    presence_of_element_located locator
  | visibility_of_element_located locator
  | element_to_be_clickable locator

record ('d, 'n) driver =
  d_scroll_height :: "'d \<Rightarrow> int \<times> 'd"
  d_page_offset :: "'d \<Rightarrow> int \<times> 'd"
  d_scroll_to :: "int \<Rightarrow> 'd \<Rightarrow> 'd"
  d_into_view :: "'n \<Rightarrow> 'd \<Rightarrow> error option \<times> 'd"
  d_find_elements :: "locator \<Rightarrow> 'd \<Rightarrow> 'n list \<times> 'd"
  d_title :: "'n \<Rightarrow> 'd \<Rightarrow> (error + string) \<times> 'd"
  d_located :: "condition \<Rightarrow> 'd \<Rightarrow> (error + 'n option) \<times> 'd"
  d_text_present :: "locator \<Rightarrow> string \<Rightarrow> 'd \<Rightarrow> bool \<times> 'd"
  d_click :: "'n \<Rightarrow> 'd \<Rightarrow> error option \<times> 'd"
  d_current_url :: "'d \<Rightarrow> string \<times> 'd"
  d_get :: "string \<Rightarrow> 'd \<Rightarrow> 'd"
  d_ready_state :: "'d \<Rightarrow> string \<times> 'd"
  polls_within :: "int \<Rightarrow> nat"

text \<open>
  The session pairs the driver state with a log of the driver calls made so far, in order,
  each with the answer it got. The log is what the properties about scrolling, querying
  and navigating are stated on; no function reads it.
\<close>

datatype 'n event =
    EvScrollHeight int
  | EvScrollTo int
  | EvIntoView 'n "error option"
  | EvQuery locator "'n list"
  | EvTitle 'n "error + string"
  | EvBottom int int
  | EvLocated condition "error + 'n option"
  | EvText locator string bool
  | EvClick 'n "error option"
  | EvUrl string
  | EvGet string
  | EvReady string

record ('d, 'n) session =
  page :: 'd
  trace :: "'n event list"

definition emit :: "'n event \<Rightarrow> 'd \<Rightarrow> ('d, 'n) session \<Rightarrow> ('d, 'n) session" where
  "emit e d s = \<lparr>page = d, trace = trace s @ [e]\<rparr>"

text \<open>\<^verbatim>\<open>driver.execute_script("return document.body.scrollHeight")\<close>\<close>

definition execute_scroll_height ::
  "('d, 'n) driver \<Rightarrow> ('d, 'n) session \<Rightarrow> int \<times> ('d, 'n) session" where
  "execute_scroll_height drv s =
     (case d_scroll_height drv (page s) of (h, d) \<Rightarrow> (h, emit (EvScrollHeight h) d s))"

text \<open>\<^verbatim>\<open>driver.execute_script(f"window.scrollTo(0, {y});")\<close>\<close>

definition execute_scroll_to ::
  "('d, 'n) driver \<Rightarrow> int \<Rightarrow> ('d, 'n) session \<Rightarrow> ('d, 'n) session" where
  "execute_scroll_to drv y s = emit (EvScrollTo y) (d_scroll_to drv y (page s)) s"

text \<open>
  The two reads of the bottom test, \<^verbatim>\<open>return document.body.scrollHeight\<close> and then
  \<^verbatim>\<open>return window.pageYOffset || window.scrollY || 0;\<close>, logged as one event.
\<close>

definition execute_bottom_probe ::
  "('d, 'n) driver \<Rightarrow> ('d, 'n) session \<Rightarrow> (int \<times> int) \<times> ('d, 'n) session" where
  "execute_bottom_probe drv s =
     (case d_scroll_height drv (page s) of (new_height, d1) \<Rightarrow>
        (case d_page_offset drv d1 of (current_scroll, d2) \<Rightarrow>
           ((new_height, current_scroll), emit (EvBottom new_height current_scroll) d2 s)))"

definition find_elements ::
  "('d, 'n) driver \<Rightarrow> locator \<Rightarrow> ('d, 'n) session \<Rightarrow> 'n list \<times> ('d, 'n) session" where
  "find_elements drv loc s =
     (case d_find_elements drv loc (page s) of (ns, d) \<Rightarrow> (ns, emit (EvQuery loc ns) d s))"

text \<open>
  One poll of an expected condition: \<open>Inr (Some n)\<close> is the located node, \<open>Inr None\<close>
  a falsy answer, \<open>Inl e\<close> an exception of the driver.
\<close>

definition located ::
  "('d, 'n) driver \<Rightarrow> condition \<Rightarrow> ('d, 'n) session \<Rightarrow>
   (error + 'n option) \<times> ('d, 'n) session" where
  "located drv c s =
     (case d_located drv c (page s) of (r, d) \<Rightarrow> (r, emit (EvLocated c r) d s))"


definition current_url ::
  "('d, 'n) driver \<Rightarrow> ('d, 'n) session \<Rightarrow> string \<times> ('d, 'n) session" where
  "current_url drv s = (case d_current_url drv (page s) of (u, d) \<Rightarrow> (u, emit (EvUrl u) d s))"

definition get :: "('d, 'n) driver \<Rightarrow> string \<Rightarrow> ('d, 'n) session \<Rightarrow> ('d, 'n) session" where
  "get drv url s = emit (EvGet url) (d_get drv url (page s)) s"

section \<open>Configuration and constants\<close>

text \<open>\<^verbatim>\<open>config/config_manager.py\<close>: the settings the modelled functions read.\<close>

record config =
  base_url :: string
  default_timeout :: int
  short_timeout :: int
  long_timeout :: int
  test_data_path :: string

definition XPATH :: string where
  "XPATH = ''xpath''"

definition PRODUCT_GRID_ITEMS :: string where
  "PRODUCT_GRID_ITEMS = ''//div[contains(@class,'' @ [CHR 0x27] @ ''product-grid-item-column'' @ [CHR 0x27] @ '')]''"

definition PRODUCT_TITLE_CLASS :: string where
  "PRODUCT_TITLE_CLASS = ''product-grid-item__title''"


definition TEST_DATA_KEYS :: "string list" where
  "TEST_DATA_KEYS =
     [''userEmail'', ''passWord'', ''menuName'', ''subMenuName'', ''sortBy'', ''productName'',
      ''email'', ''lastName'', ''firstName'', ''postalCode'', ''phone'', ''phone_country_select'']"

section \<open>Wait utilities (\<^verbatim>\<open>utils/waits.py\<close>)\<close>

text \<open>
  Selenium's \<^verbatim>\<open>WebDriverWait(driver, timeout).until(method)\<close> calls the method, returns
  its value when it is truthy, and otherwise sleeps and polls again until the timeout has
  elapsed, when it raises TimeoutException. It always polls at least once. A
  NoSuchElementException of the method is ignored (the poll counts as falsy); every other
  exception of the method leaves the wait at once. Real time is not modelled:
  \<open>polls_within drv t\<close> is the number of further polls that fit in a wait of \<open>t\<close>
  seconds. A poll answers \<open>Inr (Some v)\<close> for a truthy value \<open>v\<close>, \<open>Inr None\<close> for a
  falsy one and \<open>Inl e\<close> when it raises \<open>e\<close>.
\<close>

fun until :: "nat \<Rightarrow> ('s \<Rightarrow> (error + 'a option) \<times> 's) \<Rightarrow> 's \<Rightarrow> (error + 'a) \<times> 's" where
  "until 0 method s =
     (case method s of
        (Inr (Some v), s1) \<Rightarrow> (Inr v, s1)
      | (Inr None, s1) \<Rightarrow> (Inl TimeoutException, s1)
      | (Inl e, s1) \<Rightarrow>
          if e = NoSuchElementException then (Inl TimeoutException, s1) else (Inl e, s1))"
| "until (Suc n) method s =
     (case method s of
        (Inr (Some v), s1) \<Rightarrow> (Inr v, s1)
      | (Inr None, s1) \<Rightarrow> until n method s1
      | (Inl e, s1) \<Rightarrow>
          if e = NoSuchElementException then until n method s1 else (Inl e, s1))"

text \<open>
  \<open>polled method k s\<close> is the answer of poll number \<open>k\<close> (from 0) of a wait that starts
  in \<open>s\<close> and has polled \<open>k\<close> times before. A poll is idle when the wait goes on after
  it.
\<close>

definition polled :: "('s \<Rightarrow> (error + 'a option) \<times> 's) \<Rightarrow> nat \<Rightarrow> 's \<Rightarrow> error + 'a option" where
  "polled method k s = fst (method (((\<lambda>s. snd (method s)) ^^ k) s))"

definition idle :: "error + 'a option \<Rightarrow> bool" where
  "idle r = (r = Inr None \<or> r = Inl NoSuchElementException)"

definition WebDriverWait_until ::
  "('d, 'n) driver \<Rightarrow> int \<Rightarrow>
   (('d, 'n) session \<Rightarrow> (error + 'a option) \<times> ('d, 'n) session) \<Rightarrow>
   ('d, 'n) session \<Rightarrow> (error + 'a) \<times> ('d, 'n) session" where
  "WebDriverWait_until drv timeout method s = until (polls_within drv timeout) method s"

text \<open>Python's \<^verbatim>\<open>timeout or default\<close> on an optional integer: None and 0 are falsy.\<close>

definition py_or :: "int option \<Rightarrow> int \<Rightarrow> int" where
  "py_or timeout dflt = (case timeout of None \<Rightarrow> dflt | Some t \<Rightarrow> if t = 0 then dflt else t)"

record WaitUtils =
  timeout :: int

text \<open>\<^verbatim>\<open>WaitUtils.__init__\<close>: \<^verbatim>\<open>self.timeout = timeout or config.default_timeout\<close>\<close>

definition WaitUtils_init :: "config \<Rightarrow> int option \<Rightarrow> WaitUtils" where
  "WaitUtils_init cfg t = \<lparr>timeout = py_or t (default_timeout cfg)\<rparr>"



definition wait_for_element_present ::
  "('d, 'n) driver \<Rightarrow> WaitUtils \<Rightarrow> locator \<Rightarrow> int option \<Rightarrow> ('d, 'n) session \<Rightarrow>
   (error + 'n) \<times> ('d, 'n) session" where
  "wait_for_element_present drv w loc t s =
     WebDriverWait_until drv (py_or t (timeout w))
       (located drv (presence_of_element_located loc)) s"

text \<open>
  The poll of \<^verbatim>\<open>wait_for_elements_present\<close> is
  \<^verbatim>\<open>lambda driver: driver.find_elements(*locator)\<close>: a list is truthy when it is not
  empty.
\<close>

definition poll_find_elements ::
  "('d, 'n) driver \<Rightarrow> locator \<Rightarrow> ('d, 'n) session \<Rightarrow>
   (error + 'n list option) \<times> ('d, 'n) session" where
  "poll_find_elements drv loc s =
     (case find_elements drv loc s of (ns, s1) \<Rightarrow>
        (Inr (if ns = [] then None else Some ns), s1))"

definition wait_for_elements_present ::
  "('d, 'n) driver \<Rightarrow> WaitUtils \<Rightarrow> locator \<Rightarrow> int option \<Rightarrow> nat \<Rightarrow> ('d, 'n) session \<Rightarrow>
   (error + 'n list) \<times> ('d, 'n) session" where
  "wait_for_elements_present drv w loc t min_count s =
     (case WebDriverWait_until drv (py_or t (timeout w)) (poll_find_elements drv loc) s of
        (Inr elements, s1) \<Rightarrow>
          if length elements \<ge> min_count then (Inr elements, s1)
          else (Inl TimeoutException, s1)
      | (Inl e, s1) \<Rightarrow> (Inl e, s1))"







section \<open>Helpers (\<^verbatim>\<open>utils/helpers.py\<close>)\<close>

text \<open>
  \<^verbatim>\<open>str.strip()\<close> removes the leading and trailing whitespace characters of a
  string: the characters of \<^verbatim>\<open>str.isspace\<close>, which are U+0009 to U+000D, U+001C to
  U+0020, U+0085, U+00A0, U+1680, U+2000 to U+200A, U+2028, U+2029, U+202F, U+205F and
  U+3000. A string is the list of the bytes of its UTF-8 encoding here, so a whitespace
  character is the byte sequence that encodes it.
\<close>

definition whitespace :: "string list" where
  "whitespace =
     [[CHR 0x09], [CHR 0x0A], [CHR 0x0B], [CHR 0x0C], [CHR 0x0D],
      [CHR 0x1C], [CHR 0x1D], [CHR 0x1E], [CHR 0x1F], [CHR 0x20],
      [CHR 0xC2, CHR 0x85], [CHR 0xC2, CHR 0xA0], [CHR 0xE1, CHR 0x9A, CHR 0x80],
      [CHR 0xE2, CHR 0x80, CHR 0x80], [CHR 0xE2, CHR 0x80, CHR 0x81],
      [CHR 0xE2, CHR 0x80, CHR 0x82], [CHR 0xE2, CHR 0x80, CHR 0x83],
      [CHR 0xE2, CHR 0x80, CHR 0x84], [CHR 0xE2, CHR 0x80, CHR 0x85],
      [CHR 0xE2, CHR 0x80, CHR 0x86], [CHR 0xE2, CHR 0x80, CHR 0x87],
      [CHR 0xE2, CHR 0x80, CHR 0x88], [CHR 0xE2, CHR 0x80, CHR 0x89],
      [CHR 0xE2, CHR 0x80, CHR 0x8A], [CHR 0xE2, CHR 0x80, CHR 0xA8],
      [CHR 0xE2, CHR 0x80, CHR 0xA9], [CHR 0xE2, CHR 0x80, CHR 0xAF],
      [CHR 0xE2, CHR 0x81, CHR 0x9F], [CHR 0xE3, CHR 0x80, CHR 0x80]]"

text \<open>Removing the leading occurrences of the given byte sequences.\<close>

function strip_leading :: "string list \<Rightarrow> string \<Rightarrow> string" where
  "strip_leading ws text =
     (case find (\<lambda>w. w \<noteq> [] \<and> prefix w text) ws of
        None \<Rightarrow> text
      | Some w \<Rightarrow> strip_leading ws (drop (length w) text))"
  by pat_completeness auto
termination
proof (relation "measure (\<lambda>(ws, text). length text)")
  show "wf (measure (\<lambda>(ws, text). length text))" by simp
next
  fix ws :: "string list" and str w :: string
  assume "find (\<lambda>w. w \<noteq> [] \<and> prefix w str) ws = Some w"
  then have "w \<noteq> [] \<and> prefix w str" by (auto simp: find_Some_iff)
  then have "length (drop (length w) str) < length str"
    by (cases w) (auto simp: prefix_def)
  then show "((ws, drop (length w) str), (ws, str)) \<in> measure (\<lambda>(ws, text). length text)"
    by simp
qed

declare strip_leading.simps [simp del]

definition strip :: "string \<Rightarrow> string" where
  "strip text = rev (strip_leading (map rev whitespace) (rev (strip_leading whitespace text)))"

text \<open>
  \<^verbatim>\<open>scroll_to_element(driver, element)\<close>: \<^verbatim>\<open>scrollIntoView\<close> on the element;
  \<open>Some e\<close> is an exception of the driver (the element went stale).
\<close>

definition scroll_to_element ::
  "('d, 'n) driver \<Rightarrow> 'n \<Rightarrow> ('d, 'n) session \<Rightarrow> error option \<times> ('d, 'n) session" where
  "scroll_to_element drv element s =
     (case d_into_view drv element (page s) of (r, d) \<Rightarrow> (r, emit (EvIntoView element r) d s))"

definition poll_ready_state ::
  "('d, 'n) driver \<Rightarrow> ('d, 'n) session \<Rightarrow> (error + bool option) \<times> ('d, 'n) session" where
  "poll_ready_state drv s =
     (case d_ready_state drv (page s) of (st, d) \<Rightarrow>
        (Inr (if st = ''complete'' then Some True else None), emit (EvReady st) d s))"

text \<open>
  \<^verbatim>\<open>wait_for_page_load(driver, timeout=10)\<close>: the wait inside \<^verbatim>\<open>try\<close>, every
  exception logged and dropped.
\<close>

definition wait_for_page_load ::
  "('d, 'n) driver \<Rightarrow> int \<Rightarrow> ('d, 'n) session \<Rightarrow> ('d, 'n) session" where
  "wait_for_page_load drv t s = snd (WebDriverWait_until drv t (poll_ready_state drv) s)"

text \<open>
  The data file, as \<^verbatim>\<open>json.load\<close> reads it. A file system maps a path to nothing (no
  such file), to a file that is not valid JSON, or to the parsed document. A JSON object
  is the list of its members; a key is looked up with \<open>map_of\<close>.
\<close>

datatype json =
    JNull
  | JBool bool
  | JNumber int
  | JString string
  | JArray "json list"
  | JObject "(string \<times> json) list"

datatype content = Malformed | Document json

type_synonym filesystem = "string \<rightharpoonup> content"

text \<open>
  \<^verbatim>\<open>load_test_data\<close>: \<^verbatim>\<open>data.get('data', [])\<close> needs \<^verbatim>\<open>data\<close> to be a dict
  (any other JSON value has no \<^verbatim>\<open>get\<close>: AttributeError), and the log line takes
  \<^verbatim>\<open>len\<close> of the result (TypeError on a number, a boolean or null).
\<close>

definition load_test_data :: "config \<Rightarrow> filesystem \<Rightarrow> string option \<Rightarrow> error + json" where
  "load_test_data cfg fs file_path =
     (let file_path = (case file_path of None \<Rightarrow> test_data_path cfg | Some p \<Rightarrow> p) in
      case fs file_path of
        None \<Rightarrow> Inl FileNotFoundError
      | Some Malformed \<Rightarrow> Inl JSONDecodeError
      | Some (Document data) \<Rightarrow>
          (case data of
             JObject members \<Rightarrow>
               (let test_data_list = (case map_of members ''data'' of None \<Rightarrow> JArray [] | Some v \<Rightarrow> v) in
                case test_data_list of
                  JNull \<Rightarrow> Inl TypeError
                | JBool _ \<Rightarrow> Inl TypeError
                | JNumber _ \<Rightarrow> Inl TypeError
                | _ \<Rightarrow> Inr test_data_list)
           | _ \<Rightarrow> Inl AttributeError))"

definition validate_test_data :: "(string \<rightharpoonup> json) \<Rightarrow> string list \<Rightarrow> bool" where
  "validate_test_data test_data required_keys =
     (let missing_keys = filter (\<lambda>key. test_data key = None) required_keys in
      if missing_keys \<noteq> [] then False else True)"

section \<open>Page objects\<close>

subsection \<open>\<^verbatim>\<open>pageobjects/base_page.py\<close>\<close>

text \<open>A page object holds the driver and \<^verbatim>\<open>WaitUtils(driver, config.default_timeout)\<close>.\<close>

definition BasePage_init :: "config \<Rightarrow> WaitUtils" where
  "BasePage_init cfg = WaitUtils_init cfg (Some (default_timeout cfg))"

definition navigate_to ::
  "('d, 'n) driver \<Rightarrow> string \<Rightarrow> ('d, 'n) session \<Rightarrow> ('d, 'n) session" where
  "navigate_to drv url s = wait_for_page_load drv 10 (get drv url s)"


subsection \<open>\<^verbatim>\<open>pageobjects/login.py\<close>\<close>

definition is_signed_in ::
  "('d, 'n) driver \<Rightarrow> ('d, 'n) session \<Rightarrow> bool \<times> ('d, 'n) session" where
  "is_signed_in drv s =
     (case current_url drv s of (url, s1) \<Rightarrow>
        (prefix ''https://www.bluebella.com/account'' url, s1))"

definition navigate_back_to_homepage ::
  "('d, 'n) driver \<Rightarrow> string \<Rightarrow> ('d, 'n) session \<Rightarrow> ('d, 'n) session" where
  "navigate_back_to_homepage drv original_url s =
     (case is_signed_in drv s of (signed_in, s1) \<Rightarrow>
        if signed_in then navigate_to drv original_url s1 else s1)"

subsection \<open>\<^verbatim>\<open>pageobjects/productpage.py\<close>\<close>



subsection \<open>\<^verbatim>\<open>pageobjects/collectionpage.py\<close>\<close>

definition product_grid_items :: locator where
  "product_grid_items = (XPATH, PRODUCT_GRID_ITEMS)"

definition title_locator :: locator where
  "title_locator =
     (XPATH, ''.//*[contains(@class,'' @ [CHR 0x27] @ PRODUCT_TITLE_CLASS @ [CHR 0x27] @ '')]'')"

definition scroll_amount :: int where
  "scroll_amount = 400"

definition max_scrolls :: nat where
  "max_scrolls = 100"

text \<open>
  The title lookup of a product tile:
  \<^verbatim>\<open>product.find_element(By.XPATH, ...).text\<close>. It fails with
  NoSuchElementException when the tile has no title element and with
  StaleElementReferenceException when the tile went stale.
\<close>

definition product_title ::
  "('d, 'n) driver \<Rightarrow> 'n \<Rightarrow> ('d, 'n) session \<Rightarrow> (error + string) \<times> ('d, 'n) session" where
  "product_title drv product s =
     (case d_title drv product (page s) of (r, d) \<Rightarrow> (r, emit (EvTitle product r) d s))"

text \<open>\<^verbatim>\<open>except (NoSuchElementException, StaleElementReferenceException)\<close>\<close>

definition skipped :: "error \<Rightarrow> bool" where
  "skipped e = (e = NoSuchElementException \<or> e = StaleElementReferenceException)"

text \<open>
  The inner loop of the scan (lines 150 to 173): \<open>Inr (Some product)\<close> is the
  \<^verbatim>\<open>return product\<close>, \<open>Inr None\<close> the end of the loop without a match. The
  \<^verbatim>\<open>try\<close> block holds the lookup, the scroll into view and the wait: an exception
  of the two classes of the \<^verbatim>\<open>except\<close> clause from any of the three goes on with the
  next tile, every other exception propagates.
\<close>

fun scan_products ::
  "('d, 'n) driver \<Rightarrow> WaitUtils \<Rightarrow> config \<Rightarrow> string \<Rightarrow> 'n list \<Rightarrow> ('d, 'n) session \<Rightarrow>
   (error + 'n option) \<times> ('d, 'n) session" where
  "scan_products drv w cfg product_name [] s = (Inr None, s)"
| "scan_products drv w cfg product_name (product # rest) s =
     (case product_title drv product s of
        (Inl e, s1) \<Rightarrow>
          if skipped e then scan_products drv w cfg product_name rest s1 else (Inl e, s1)
      | (Inr text, s1) \<Rightarrow>
          if strip text = product_name then
            (case scroll_to_element drv product s1 of
               (Some e, s2) \<Rightarrow>
                 if skipped e then scan_products drv w cfg product_name rest s2 else (Inl e, s2)
             | (None, s2) \<Rightarrow>
                 (case wait_for_element_present drv w title_locator (Some (short_timeout cfg)) s2 of
                    (Inr _, s3) \<Rightarrow> (Inr (Some product), s3)
                  | (Inl e, s3) \<Rightarrow>
                      if skipped e then scan_products drv w cfg product_name rest s3
                      else (Inl e, s3)))
          else scan_products drv w cfg product_name rest s1)"

text \<open>The loop of the final check (lines 213 to 224), with the same \<^verbatim>\<open>except\<close> clause.\<close>

fun final_scan ::
  "('d, 'n) driver \<Rightarrow> string \<Rightarrow> 'n list \<Rightarrow> ('d, 'n) session \<Rightarrow>
   (error + 'n option) \<times> ('d, 'n) session" where
  "final_scan drv product_name [] s = (Inr None, s)"
| "final_scan drv product_name (product # rest) s =
     (case product_title drv product s of
        (Inl e, s1) \<Rightarrow> if skipped e then final_scan drv product_name rest s1 else (Inl e, s1)
      | (Inr text, s1) \<Rightarrow>
          if strip text = product_name then
            (case scroll_to_element drv product s1 of
               (Some e, s2) \<Rightarrow>
                 if skipped e then final_scan drv product_name rest s2 else (Inl e, s2)
             | (None, s2) \<Rightarrow> (Inr (Some product), s2))
          else final_scan drv product_name rest s1)"

text \<open>
  Lines 180 to 187: the wait for the lazily loaded content, inside \<^verbatim>\<open>try\<close> with
  \<^verbatim>\<open>except TimeoutException\<close>, which only logs. \<open>Some e\<close> is an exception that
  propagates.
\<close>

definition wait_for_lazy_content ::
  "('d, 'n) driver \<Rightarrow> WaitUtils \<Rightarrow> config \<Rightarrow> nat \<Rightarrow> ('d, 'n) session \<Rightarrow>
   error option \<times> ('d, 'n) session" where
  "wait_for_lazy_content drv w cfg min_count s =
     (case wait_for_elements_present drv w product_grid_items (Some (short_timeout cfg))
             min_count s of
        (Inl e, s1) \<Rightarrow> (if e = TimeoutException then None else Some e, s1)
      | (Inr _, s1) \<Rightarrow> (None, s1))"

text \<open>
  The scanning loop \<^verbatim>\<open>for scroll_count in range(max_scrolls)\<close>: the first argument
  after the name is the number of iterations left, then \<^verbatim>\<open>scroll_position\<close> and
  \<^verbatim>\<open>last_height\<close>. \<open>Inr None\<close> is the loop left by exhaustion or by
  \<^verbatim>\<open>break\<close>.
\<close>

fun scan_loop ::
  "('d, 'n) driver \<Rightarrow> WaitUtils \<Rightarrow> config \<Rightarrow> string \<Rightarrow> nat \<Rightarrow> int \<Rightarrow> int \<Rightarrow> ('d, 'n) session \<Rightarrow>
   (error + 'n option) \<times> ('d, 'n) session" where
  "scan_loop drv w cfg product_name 0 scroll_position last_height s = (Inr None, s)"
| "scan_loop drv w cfg product_name (Suc k) scroll_position last_height s =
     (case find_elements drv product_grid_items s of (products, s1) \<Rightarrow>
        if products = [] then
          (case wait_for_element_present drv w product_grid_items (Some (short_timeout cfg))
                  (execute_scroll_to drv (scroll_position + scroll_amount) s1) of
             (Inl e, s3) \<Rightarrow> (Inl e, s3)
           | (Inr _, s3) \<Rightarrow>
               scan_loop drv w cfg product_name k (scroll_position + scroll_amount) last_height s3)
        else
          (case scan_products drv w cfg product_name products s1 of
             (Inl e, s2) \<Rightarrow> (Inl e, s2)
           | (Inr (Some product), s2) \<Rightarrow> (Inr (Some product), s2)
           | (Inr None, s2) \<Rightarrow>
               (case wait_for_lazy_content drv w cfg (length products)
                       (execute_scroll_to drv (scroll_position + scroll_amount) s2) of
                  (Some e, s4) \<Rightarrow> (Inl e, s4)
                | (None, s4) \<Rightarrow>
                    (case execute_bottom_probe drv s4 of ((new_height, current_scroll), s5) \<Rightarrow>
                       if current_scroll + 500 \<ge> new_height then (Inr None, s5)
                       else scan_loop drv w cfg product_name k
                              (scroll_position + scroll_amount)
                              (if new_height > last_height then new_height else last_height)
                              s5))))"

text \<open>The final check (lines 202 to 226).\<close>

definition final_check ::
  "('d, 'n) driver \<Rightarrow> WaitUtils \<Rightarrow> config \<Rightarrow> string \<Rightarrow> ('d, 'n) session \<Rightarrow>
   (error + 'n) \<times> ('d, 'n) session" where
  "final_check drv w cfg product_name s =
     (case wait_for_elements_present drv w product_grid_items (Some (short_timeout cfg)) 1
             (execute_scroll_to drv 0 s) of
        (Inl e, s2) \<Rightarrow> (Inl e, s2)
      | (Inr _, s2) \<Rightarrow>
          (case find_elements drv product_grid_items s2 of (products, s3) \<Rightarrow>
             (case final_scan drv product_name products s3 of
                (Inl e, s4) \<Rightarrow> (Inl e, s4)
              | (Inr (Some product), s4) \<Rightarrow> (Inr product, s4)
              | (Inr None, s4) \<Rightarrow> (Inl NoSuchElementException, s4))))"

definition find_product_by_name ::
  "('d, 'n) driver \<Rightarrow> WaitUtils \<Rightarrow> config \<Rightarrow> string \<Rightarrow> ('d, 'n) session \<Rightarrow>
   (error + 'n) \<times> ('d, 'n) session" where
  "find_product_by_name drv w cfg product_name s =
     (case execute_scroll_height drv s of (last_height, s0) \<Rightarrow>
        (case scan_loop drv w cfg product_name max_scrolls 0 last_height s0 of
           (Inl e, s1) \<Rightarrow> (Inl e, s1)
         | (Inr (Some product), s1) \<Rightarrow> (Inr product, s1)
         | (Inr None, s1) \<Rightarrow> final_check drv w cfg product_name s1))"

section \<open>The scenario (\<^verbatim>\<open>test_bluebella.py\<close>)\<close>

text \<open>
  \<^verbatim>\<open>test_bluebella_e2e_shopping_flow\<close> asserts the validation of its record and then
  runs the \<^verbatim>\<open>try\<close> block with the seven steps of the flow, which re-raises whatever
  a step raises. Every use of the driver is inside that block, which is the parameter
  \<open>steps\<close> here.
\<close>

definition test_bluebella_e2e_shopping_flow ::
  "((string \<rightharpoonup> json) \<Rightarrow> ('d, 'n) session \<Rightarrow> (error + unit) \<times> ('d, 'n) session) \<Rightarrow>
   (string \<rightharpoonup> json) \<Rightarrow> ('d, 'n) session \<Rightarrow> (error + unit) \<times> ('d, 'n) session" where
  "test_bluebella_e2e_shopping_flow steps test_data s =
     (if \<not> validate_test_data test_data TEST_DATA_KEYS then (Inl AssertionError, s)
      else steps test_data s)"

section \<open>Reading the log\<close>

text \<open>
  The offsets of the \<^verbatim>\<open>window.scrollTo\<close> calls in a log, in order; whether an event
  is a bottom test that found the window within 500 pixels of the height; whether the
  answer of a title lookup is the wanted title; and the events that neither scroll the
  window nor test for the bottom.
\<close>

fun scroll_target :: "'n event \<Rightarrow> int list" where
  "scroll_target (EvScrollTo y) = [y]"
| "scroll_target _ = []"

definition scroll_targets :: "'n event list \<Rightarrow> int list" where
  "scroll_targets evs = concat (map scroll_target evs)"

fun at_bottom :: "'n event \<Rightarrow> bool" where
  "at_bottom (EvBottom new_height current_scroll) = (current_scroll + 500 \<ge> new_height)"
| "at_bottom _ = False"

fun title_hit :: "string \<Rightarrow> error + string \<Rightarrow> bool" where
  "title_hit product_name (Inr text) = (strip text = product_name)"
| "title_hit product_name (Inl e) = False"

fun is_located :: "'n event \<Rightarrow> bool" where
  "is_located (EvLocated c r) = True"
| "is_located _ = False"

fun quiet :: "'n event \<Rightarrow> bool" where
  "quiet (EvScrollTo y) = False"
| "quiet (EvBottom new_height current_scroll) = False"
| "quiet _ = True"

text \<open>
  The part of the log in which a scan passes over the tile \<open>n\<close>: the title lookup alone,
  when it failed or answered another title; or the lookup of the wanted title and then
  either a scroll into view that raised an exception of the \<^verbatim>\<open>except\<close> clause, or
  a scroll into view and the polls of a wait whose last poll raised such an exception.
\<close>

fun passed_over :: "string \<Rightarrow> 'n \<Rightarrow> 'n event list \<Rightarrow> bool" where
  "passed_over product_name n (EvTitle m a # rest) =
     (m = n \<and>
      (case rest of
         [] \<Rightarrow> \<not> title_hit product_name a
       | EvIntoView m' r # polls \<Rightarrow>
           m' = n \<and> title_hit product_name a \<and>
           (case r of
              Some e \<Rightarrow> skipped e \<and> polls = []
            | None \<Rightarrow>
                polls \<noteq> [] \<and> list_all is_located polls \<and>
                (case last polls of EvLocated c (Inl e) \<Rightarrow> skipped e | _ \<Rightarrow> False))
       | _ \<Rightarrow> False))"
| "passed_over product_name n _ = False"

text \<open>The offsets of the first \<open>j\<close> scroll steps of a scan that starts at \<open>scroll_position\<close>.\<close>

definition ramp :: "int \<Rightarrow> nat \<Rightarrow> int list" where
  "ramp scroll_position j = map (\<lambda>i. scroll_position + scroll_amount * (int i + 1)) [0..<j]"

section \<open>Example drivers\<close>

text \<open>
  A driver that answers nothing: no node is ever located, every list is empty. The
  examples below change single capabilities of it.
\<close>

definition idle_driver :: "('d, nat) driver" where
  "idle_driver =
     \<lparr>d_scroll_height = (\<lambda>d. (0, d)),
      d_page_offset = (\<lambda>d. (0, d)),
      d_scroll_to = (\<lambda>y d. d),
      d_into_view = (\<lambda>n d. (None, d)),
      d_find_elements = (\<lambda>loc d. ([], d)),
      d_title = (\<lambda>n d. (Inl NoSuchElementException, d)),
      d_located = (\<lambda>c d. (Inr None, d)),
      d_text_present = (\<lambda>loc text d. (False, d)),
      d_click = (\<lambda>n d. (None, d)),
      d_current_url = (\<lambda>d. (''https://www.bluebella.com/'', d)),
      d_get = (\<lambda>url d. d),
      d_ready_state = (\<lambda>d. (''complete'', d)),
      polls_within = (\<lambda>t. 2)\<rparr>"

text \<open>
  A collection page of height 2400 that loads its tiles as the window scrolls down. The
  driver state is the scroll offset and the largest offset reached. With \<open>keep\<close> the
  loaded tiles stay in the document; without it the page shows the tiles of the current
  offset only. Tile 1 is stale, tiles 2 and 3 are both titled Lace Bra; the title of
  tile 2 has a no-break space (U+00A0, the bytes C2 A0) before the name and a space after it.
\<close>

definition shop_tiles :: "int \<Rightarrow> nat list" where
  "shop_tiles y = (if y < 400 then [] else if y < 800 then [0] else [0, 1, 2, 3])"

definition shop_title :: "nat \<Rightarrow> error + string" where
  "shop_title n =
     (if n = 0 then Inr ''Silk Slip''
      else if n = 1 then Inl StaleElementReferenceException
      else if n = 2 then Inr ([CHR 0xC2, CHR 0xA0] @ ''Lace Bra '')
      else if n = 3 then Inr ''Lace Bra''
      else Inl NoSuchElementException)"

definition shop :: "bool \<Rightarrow> (int \<times> int, nat) driver" where
  "shop keep =
     idle_driver
       \<lparr>d_scroll_height := (\<lambda>d. (2400, d)),
        d_page_offset := (\<lambda>d. (fst d, d)),
        d_scroll_to := (\<lambda>y d. (y, max y (snd d))),
        d_find_elements := (\<lambda>loc d. (shop_tiles (if keep then snd d else fst d), d)),
        d_title := (\<lambda>n d. (shop_title n, d)),
        d_located := (\<lambda>c d. (Inr (if snd d < 400 then None else Some 0), d))\<rparr>"

text \<open>
  The same page, where tile 2 goes stale when it is scrolled into view.
\<close>

definition stale_shop :: "(int \<times> int, nat) driver" where
  "stale_shop =
     (shop True)
       \<lparr>d_into_view := (\<lambda>n d. (if n = 2 then Some StaleElementReferenceException else None, d))\<rparr>"


text \<open>A grid that shows one more tile at every query; the driver state counts the queries.\<close>

definition growing_grid :: "(nat, nat) driver" where
  "growing_grid = idle_driver\<lparr>d_find_elements := (\<lambda>loc d. ([0..<Suc d], Suc d))\<rparr>"

text \<open>A driver whose browser is on the account page.\<close>

definition account_driver :: "(nat, nat) driver" where
  "account_driver =
     idle_driver\<lparr>d_current_url := (\<lambda>d. (''https://www.bluebella.com/account/login'', d))\<rparr>"

definition demo_config :: config where
  "demo_config =
     \<lparr>base_url = ''https://www.bluebella.com'', default_timeout = 10, short_timeout = 5,
      long_timeout = 20, test_data_path = ''testdata/data.json''\<rparr>"

text \<open>The record of the illustrative scenario, and the same record without its phone.\<close>

definition jane_record :: "string \<rightharpoonup> json" where
  "jane_record =
     map_of
       [(''userEmail'', JString ''a@b.com''), (''passWord'', JString ''x''),
        (''menuName'', JString ''Shop''), (''subMenuName'', JString ''Bras''),
        (''sortBy'', JString ''Newest''), (''productName'', JString ''Lace Bra''),
        (''email'', JString ''a@b.com''), (''lastName'', JString ''Doe''),
        (''firstName'', JString ''Jane''), (''postalCode'', JString ''100-0001''),
        (''phone'', JString ''08000000000''), (''phone_country_select'', JString ''JP'')]"

definition no_phone_record :: "string \<rightharpoonup> json" where
  "no_phone_record = jane_record(''phone'' := None)"

text \<open>A scenario body that opens the home page at once.\<close>

definition open_home ::
  "(string \<rightharpoonup> json) \<Rightarrow> (nat, nat) session \<Rightarrow> (error + unit) \<times> (nat, nat) session" where
  "open_home test_data s = (Inr (), navigate_to idle_driver (base_url demo_config) s)"

text \<open>Two data files: a list of records at the top level, and the list under the key data.\<close>

definition list_file :: filesystem where
  "list_file =
     [''testdata/data.json'' \<mapsto>
        Document (JArray [JObject [(''productName'', JString ''Lace Bra'')]])]"

definition data_file :: filesystem where
  "data_file =
     [''testdata/data.json'' \<mapsto>
        Document (JObject [(''data'', JArray [JObject [(''productName'', JString ''Lace Bra'')]])])]"

definition start :: "'d \<Rightarrow> ('d, nat) session" where
  "start d = \<lparr>page = d, trace = []\<rparr>"

section \<open>Properties of the waits\<close>

text \<open>
  A wait is decided by its first poll that neither answers a falsy value nor raises
  NoSuchElementException: it returns the value of that poll or raises its exception, and
  it raises TimeoutException when no poll within the timeout is of that kind.
\<close>
lemma polled_0: "polled poll 0 s = fst (poll s)"
  by (simp add: polled_def)

lemma polled_Suc: "polled poll (Suc k) s = polled poll k (snd (poll s))"
  by (simp add: polled_def funpow_Suc_right del: funpow.simps)

lemma until_0:
  "fst (until 0 poll s)
     = (case fst (poll s) of Inr (Some v) \<Rightarrow> Inr v | Inr None \<Rightarrow> Inl TimeoutException
        | Inl e \<Rightarrow> if e = NoSuchElementException then Inl TimeoutException else Inl e)"
  by (auto split: prod.splits sum.splits option.splits)

lemma until_Suc_idle:
  "idle (fst (poll s)) \<Longrightarrow> until (Suc n) poll s = until n poll (snd (poll s))"
  by (auto simp: idle_def split: prod.splits sum.splits option.splits)

lemma until_Suc_value:
  "fst (poll s) = Inr (Some v) \<Longrightarrow> fst (until (Suc n) poll s) = Inr v"
  by (auto split: prod.splits sum.splits option.splits)

lemma until_Suc_raise:
  "fst (poll s) = Inl e \<Longrightarrow> e \<noteq> NoSuchElementException \<Longrightarrow> fst (until (Suc n) poll s) = Inl e"
  by (auto split: prod.splits sum.splits option.splits)

lemma not_idle_cases:
  "\<not> idle r \<Longrightarrow> (\<exists>v. r = Inr (Some v)) \<or> (\<exists>e. r = Inl e \<and> e \<noteq> NoSuchElementException)"
  by (cases r) (auto simp: idle_def)

lemma until_cases:
  "(fst (until n poll s) = Inl TimeoutException \<and> (\<forall>k\<le>n. idle (polled poll k s)))
   \<or> (\<exists>k\<le>n. (\<forall>j<k. idle (polled poll j s))
         \<and> (\<exists>v. polled poll k s = Inr (Some v) \<and> fst (until n poll s) = Inr v))
   \<or> (\<exists>k\<le>n. (\<forall>j<k. idle (polled poll j s))
         \<and> (\<exists>e. polled poll k s = Inl e \<and> e \<noteq> NoSuchElementException
               \<and> fst (until n poll s) = Inl e))"
proof (induction n arbitrary: s)
  case 0
  show ?case
  proof (cases "idle (fst (poll s))")
    case True
    then have "fst (until 0 poll s) = Inl TimeoutException \<and> (\<forall>k\<le>0. idle (polled poll k s))"
      by (auto simp: idle_def polled_0 split: prod.splits sum.splits option.splits)
    then show ?thesis by blast
  next
    case False
    from not_idle_cases [OF this] show ?thesis
    proof
      assume "\<exists>v. fst (poll s) = Inr (Some v)"
      then obtain v where "fst (poll s) = Inr (Some v)" by blast
      then have "(\<forall>j<0. idle (polled poll j s))
          \<and> (\<exists>v. polled poll 0 s = Inr (Some v) \<and> fst (until 0 poll s) = Inr v)"
        by (auto simp: polled_0 split: prod.splits sum.splits option.splits)
      then show ?thesis by blast
    next
      assume "\<exists>e. fst (poll s) = Inl e \<and> e \<noteq> NoSuchElementException"
      then obtain e where "fst (poll s) = Inl e" "e \<noteq> NoSuchElementException" by blast
      then have "(\<forall>j<0. idle (polled poll j s))
          \<and> (\<exists>e. polled poll 0 s = Inl e \<and> e \<noteq> NoSuchElementException
                \<and> fst (until 0 poll s) = Inl e)"
        by (auto simp: polled_0 split: prod.splits sum.splits option.splits)
      then show ?thesis by blast
    qed
  qed
next
  case (Suc n)
  show ?case
  proof (cases "idle (fst (poll s))")
    case True
    let ?s1 = "snd (poll s)"
    have step: "until (Suc n) poll s = until n poll ?s1" using True by (rule until_Suc_idle [of poll s n])
    have first: "idle (polled poll 0 s)" using True by (simp add: polled_0)
    have lift_all: "\<And>k. (\<forall>j<k. idle (polled poll j ?s1)) \<Longrightarrow> (\<forall>j<Suc k. idle (polled poll j s))"
    proof (intro allI impI)
      fix k j
      assume a: "\<forall>j<k. idle (polled poll j ?s1)" and j: "j < Suc k"
      show "idle (polled poll j s)"
      proof (cases j)
        case 0
        then show ?thesis using first by simp
      next
        case (Suc i)
        then show ?thesis using a j by (simp add: polled_Suc)
      qed
    qed
    from Suc.IH [of ?s1] consider
      (timeout) "fst (until n poll ?s1) = Inl TimeoutException" "\<forall>k\<le>n. idle (polled poll k ?s1)"
      | (val) k v where "k \<le> n" "\<forall>j<k. idle (polled poll j ?s1)"
          "polled poll k ?s1 = Inr (Some v)" "fst (until n poll ?s1) = Inr v"
      | (raise) k e where "k \<le> n" "\<forall>j<k. idle (polled poll j ?s1)"
          "polled poll k ?s1 = Inl e" "e \<noteq> NoSuchElementException" "fst (until n poll ?s1) = Inl e"
      by blast
    then show ?thesis
    proof cases
      case timeout
      have "\<forall>j<Suc n. idle (polled poll j ?s1)" using timeout(2) by simp
      then have "\<forall>j<Suc (Suc n). idle (polled poll j s)" by (rule lift_all)
      then have "\<forall>k\<le>Suc n. idle (polled poll k s)" by simp
      then show ?thesis using timeout(1) step by simp
    next
      case val
      have "Suc k \<le> Suc n \<and> (\<forall>j<Suc k. idle (polled poll j s))
          \<and> (\<exists>v. polled poll (Suc k) s = Inr (Some v) \<and> fst (until (Suc n) poll s) = Inr v)"
        using val lift_all [OF val(2)] step by (simp add: polled_Suc)
      then show ?thesis by blast
    next
      case raise
      have "Suc k \<le> Suc n \<and> (\<forall>j<Suc k. idle (polled poll j s))
          \<and> (\<exists>e. polled poll (Suc k) s = Inl e \<and> e \<noteq> NoSuchElementException
                \<and> fst (until (Suc n) poll s) = Inl e)"
        using raise lift_all [OF raise(2)] step by (simp add: polled_Suc)
      then show ?thesis by blast
    qed
  next
    case False
    from not_idle_cases [OF this] show ?thesis
    proof
      assume "\<exists>v. fst (poll s) = Inr (Some v)"
      then obtain v where v: "fst (poll s) = Inr (Some v)" by blast
      have "0 \<le> Suc n \<and> (\<forall>j<0. idle (polled poll j s))
          \<and> (\<exists>v. polled poll 0 s = Inr (Some v) \<and> fst (until (Suc n) poll s) = Inr v)"
        using v until_Suc_value [of poll s v n] by (simp add: polled_0)
      then show ?thesis by blast
    next
      assume "\<exists>e. fst (poll s) = Inl e \<and> e \<noteq> NoSuchElementException"
      then obtain e where e: "fst (poll s) = Inl e" "e \<noteq> NoSuchElementException" by blast
      have "0 \<le> Suc n \<and> (\<forall>j<0. idle (polled poll j s))
          \<and> (\<exists>e. polled poll 0 s = Inl e \<and> e \<noteq> NoSuchElementException
                \<and> fst (until (Suc n) poll s) = Inl e)"
        using e until_Suc_raise [of poll s e n] by (simp add: polled_0)
      then show ?thesis by blast
    qed
  qed
qed


lemma until_not_ignored: "fst (until n poll s) \<noteq> Inl NoSuchElementException"
  using until_cases [of n poll s] by auto

lemma until_error:
  assumes "\<And>s. \<exists>r. fst (poll s) = Inr r"
  shows "fst (until n poll s) = Inl e \<Longrightarrow> e = TimeoutException"
proof -
  assume r: "fst (until n poll s) = Inl e"
  have "\<And>k. \<exists>r. polled poll k s = Inr r" using assms by (simp add: polled_def)
  then have "\<And>k e. polled poll k s \<noteq> Inl e" by (metis sum.distinct(1))
  then show "e = TimeoutException" using until_cases [of n poll s] r by auto
qed

lemma wait_elements_present_error:
  "fst (wait_for_elements_present drv w loc t min_count s) = Inl e \<Longrightarrow> e = TimeoutException"
proof -
  have q: "\<And>s. \<exists>r. fst (poll_find_elements drv loc s) = Inr r"
    by (simp add: poll_find_elements_def split: prod.splits)
  assume "fst (wait_for_elements_present drv w loc t min_count s) = Inl e"
  then show "e = TimeoutException"
    using until_error [of "poll_find_elements drv loc" "polls_within drv (py_or t (timeout w))" s e, OF q]
    by (auto simp: wait_for_elements_present_def WebDriverWait_until_def
        split: prod.splits sum.splits if_splits)
qed

lemma until_trace:
  assumes "\<And>s. \<exists>e. P e \<and> trace (snd (poll s)) = trace s @ [e]"
  shows "\<exists>evs. trace (snd (until n poll s)) = trace s @ evs \<and> (\<forall>e\<in>set evs. P e)"
proof (induction n arbitrary: s)
  case 0
  obtain e where "P e" "trace (snd (poll s)) = trace s @ [e]" using assms by blast
  then have "trace (snd (until 0 poll s)) = trace s @ [e] \<and> (\<forall>x\<in>set [e]. P x)"
    by (auto split: prod.splits option.splits sum.splits)
  then show ?case by blast
next
  case (Suc n)
  obtain e where e: "P e" "trace (snd (poll s)) = trace s @ [e]" using assms by blast
  obtain evs where evs: "trace (snd (until n poll (snd (poll s)))) = trace (snd (poll s)) @ evs"
      "\<forall>x\<in>set evs. P x"
    using Suc.IH by blast
  have "until (Suc n) poll s = until n poll (snd (poll s)) \<or> snd (until (Suc n) poll s) = snd (poll s)"
    by (auto split: prod.splits option.splits sum.splits)
  then show ?case
  proof
    assume "until (Suc n) poll s = until n poll (snd (poll s))"
    then have "trace (snd (until (Suc n) poll s)) = trace s @ (e # evs) \<and> (\<forall>x\<in>set (e # evs). P x)"
      using e evs by simp
    then show ?thesis by blast
  next
    assume "snd (until (Suc n) poll s) = snd (poll s)"
    then have "trace (snd (until (Suc n) poll s)) = trace s @ [e] \<and> (\<forall>x\<in>set [e]. P x)"
      using e by simp
    then show ?thesis by blast
  qed
qed










text \<open>
  C5, as the code behaves: \<^verbatim>\<open>wait_for_elements_present\<close> polls until the list is not
  empty, not until it holds \<open>min_count\<close> elements, and raises TimeoutException at once when
  the first non-empty list is shorter. On a grid that shows one tile at the first query
  and two at the second, a wait for two tiles with room for further polls raises after a
  single query, although the next poll would have found two tiles.
\<close>

theorem wait_for_elements_present_stops_at_first_nonempty_poll:
  "fst (wait_for_elements_present growing_grid (BasePage_init demo_config) product_grid_items (Some 5) 2 (start 0))
     = Inl TimeoutException
   \<and> length (trace (snd (wait_for_elements_present growing_grid (BasePage_init demo_config)
                product_grid_items (Some 5) 2 (start 0)))) = 1
   \<and> 1 \<le> polls_within growing_grid (py_or (Some 5) (timeout (BasePage_init demo_config)))
   \<and> polled (poll_find_elements growing_grid product_grid_items) 1 (start 0) = Inr (Some [0, 1])"
  by code_simp



section \<open>Properties of the helpers and the scenario\<close>

text \<open>
  C6: \<^verbatim>\<open>validate_test_data\<close> returns True exactly when every required key is in the
  record, and the scenario asserts it first: with a key of \<^verbatim>\<open>TEST_DATA_KEYS\<close>
  missing it fails with AssertionError and the session is as it was (no driver call was
  made); with all keys present it is the steps of the flow.
\<close>

theorem validation_precedes_browser:
  "(validate_test_data test_data required_keys \<longleftrightarrow> (\<forall>key\<in>set required_keys. key \<in> dom test_data))
   \<and> ((\<exists>key\<in>set TEST_DATA_KEYS. key \<notin> dom test_data)
        \<longrightarrow> test_bluebella_e2e_shopping_flow steps test_data s = (Inl AssertionError, s))
   \<and> ((\<forall>key\<in>set TEST_DATA_KEYS. key \<in> dom test_data)
        \<longrightarrow> test_bluebella_e2e_shopping_flow steps test_data s = steps test_data s)"
proof -
  have v: "validate_test_data test_data keys \<longleftrightarrow> (\<forall>key\<in>set keys. key \<in> dom test_data)" for keys
    by (auto simp: validate_test_data_def filter_empty_conv)
  show ?thesis
    using v [of required_keys] v [of TEST_DATA_KEYS]
    by (auto simp: test_bluebella_e2e_shopping_flow_def)
qed

theorem validation_precedes_browser_witness:
  "''phone'' \<in> set TEST_DATA_KEYS \<and> ''phone'' \<notin> dom no_phone_record
   \<and> \<not> validate_test_data no_phone_record TEST_DATA_KEYS
   \<and> test_bluebella_e2e_shopping_flow open_home no_phone_record (start 0)
       = (Inl AssertionError, start 0)
   \<and> validate_test_data jane_record TEST_DATA_KEYS
   \<and> test_bluebella_e2e_shopping_flow open_home jane_record (start 0)
       = open_home jane_record (start 0)
   \<and> trace (snd (open_home jane_record (start 0))) \<noteq> []"
proof -
  have a: "''phone'' \<in> set TEST_DATA_KEYS \<and> ''phone'' \<notin> dom no_phone_record"
    by (simp add: TEST_DATA_KEYS_def no_phone_record_def)
  have b: "\<forall>key\<in>set TEST_DATA_KEYS. key \<in> dom jane_record"
    by (simp add: TEST_DATA_KEYS_def jane_record_def)
  have c: "trace (snd (open_home jane_record (start 0))) \<noteq> []"
    by code_simp
  show ?thesis
    using a b c
      validation_precedes_browser [of no_phone_record TEST_DATA_KEYS open_home "start 0"]
      validation_precedes_browser [of jane_record TEST_DATA_KEYS open_home "start 0"]
    by blast
qed

text \<open>
  C8, as stated, fails: for a data file whose top level is a list of records,
  \<^verbatim>\<open>load_test_data\<close> raises AttributeError (a list has no \<^verbatim>\<open>get\<close>).
\<close>

theorem load_test_data_top_level_list_counterexample:
  "load_test_data demo_config list_file None = Inl AttributeError
   \<and> load_test_data demo_config list_file None
       \<noteq> Inr (JArray [JObject [(''productName'', JString ''Lace Bra'')]])"
  by (simp add: load_test_data_def demo_config_def list_file_def)

text \<open>
  C8, amended: the data file is a JSON object that holds the list of records under the key
  \<^verbatim>\<open>data\<close>; for every such file \<^verbatim>\<open>load_test_data\<close> returns that list, and
  the empty list when the object has no such key.
\<close>

theorem load_test_data_returns_data_member:
  assumes "fs (case file_path of None \<Rightarrow> test_data_path cfg | Some p \<Rightarrow> p)
             = Some (Document (JObject members))"
  shows "(map_of members ''data'' = Some (JArray records)
            \<longrightarrow> load_test_data cfg fs file_path = Inr (JArray records))
       \<and> (map_of members ''data'' = None \<longrightarrow> load_test_data cfg fs file_path = Inr (JArray []))"
  using assms by (simp add: load_test_data_def)

theorem load_test_data_returns_data_member_witness:
  "load_test_data demo_config data_file None
     = Inr (JArray [JObject [(''productName'', JString ''Lace Bra'')]])"
proof -
  have f: "data_file (case None of None \<Rightarrow> test_data_path demo_config | Some p \<Rightarrow> p)
      = Some (Document (JObject [(''data'', JArray [JObject [(''productName'', JString ''Lace Bra'')]])]))"
    by (simp add: data_file_def demo_config_def)
  show ?thesis
    using f load_test_data_returns_data_member [where fs = data_file and file_path = None
        and cfg = demo_config
        and members = "[(''data'', JArray [JObject [(''productName'', JString ''Lace Bra'')]])]"
        and records = "[JObject [(''productName'', JString ''Lace Bra'')]]"]
    by simp
qed

section \<open>Properties of the login page\<close>

lemma poll_ready_state_trace:
  "\<exists>e. (\<exists>st. e = EvReady st) \<and> trace (snd (poll_ready_state drv s)) = trace s @ [e]"
  by (simp add: poll_ready_state_def emit_def split: prod.splits)

lemma navigate_to_trace:
  "\<exists>polls. trace (navigate_to drv url s) = trace s @ EvGet url # polls
     \<and> (\<forall>e\<in>set polls. \<exists>st. e = EvReady st)"
proof -
  obtain evs where "trace (snd (until (polls_within drv 10) (poll_ready_state drv) (get drv url s)))
      = trace (get drv url s) @ evs" "\<forall>e\<in>set evs. \<exists>st. e = EvReady st"
    using until_trace [of "\<lambda>e. \<exists>st. e = EvReady st" "poll_ready_state drv"
        "polls_within drv 10" "get drv url s"] poll_ready_state_trace [of drv]
    by blast
  then show ?thesis
    by (auto simp: navigate_to_def wait_for_page_load_def WebDriverWait_until_def get_def emit_def)
qed

text \<open>
  C10: \<^verbatim>\<open>is_signed_in\<close> is True exactly when the current URL starts with the literal
  \<^verbatim>\<open>https://www.bluebella.com/account\<close> (it reads no configuration), and
  \<^verbatim>\<open>navigate_back_to_homepage\<close> navigates only then: when the predicate is False it
  reads the URL and does nothing else, when it is True it reads the URL, opens the
  original URL and polls the ready state.
\<close>

theorem signed_in_by_literal_prefix:
  "fst (is_signed_in drv s)
     = prefix ''https://www.bluebella.com/account'' (fst (d_current_url drv (page s)))
   \<and> (\<not> fst (is_signed_in drv s) \<longrightarrow>
        navigate_back_to_homepage drv original_url s = snd (current_url drv s)
        \<and> trace (navigate_back_to_homepage drv original_url s)
            = trace s @ [EvUrl (fst (d_current_url drv (page s)))])
   \<and> (fst (is_signed_in drv s) \<longrightarrow>
        (\<exists>polls. trace (navigate_back_to_homepage drv original_url s)
                   = trace s @ [EvUrl (fst (d_current_url drv (page s))), EvGet original_url] @ polls
                 \<and> (\<forall>e\<in>set polls. \<exists>st. e = EvReady st)))"
proof -
  obtain u d where u: "d_current_url drv (page s) = (u, d)" by (cases "d_current_url drv (page s)")
  have s1: "current_url drv s = (u, emit (EvUrl u) d s)" using u by (simp add: current_url_def)
  have a: "fst (is_signed_in drv s) = prefix ''https://www.bluebella.com/account'' u"
    using s1 by (simp add: is_signed_in_def)
  have b: "\<not> fst (is_signed_in drv s) \<longrightarrow>
        navigate_back_to_homepage drv original_url s = snd (current_url drv s)
        \<and> trace (navigate_back_to_homepage drv original_url s) = trace s @ [EvUrl u]"
    using s1 by (simp add: navigate_back_to_homepage_def is_signed_in_def emit_def)
  have c: "fst (is_signed_in drv s) \<longrightarrow>
        (\<exists>polls. trace (navigate_back_to_homepage drv original_url s)
                   = trace s @ [EvUrl u, EvGet original_url] @ polls
                 \<and> (\<forall>e\<in>set polls. \<exists>st. e = EvReady st))"
    using s1 navigate_to_trace [of drv original_url "emit (EvUrl u) d s"]
    by (auto simp: navigate_back_to_homepage_def is_signed_in_def emit_def)
  show ?thesis using a b c u s1 by (simp add: emit_def)
qed

theorem signed_in_by_literal_prefix_witness:
  "\<not> fst (is_signed_in idle_driver (start (0::nat)))
   \<and> trace (navigate_back_to_homepage idle_driver ''https://www.bluebella.com'' (start (0::nat)))
       = [EvUrl ''https://www.bluebella.com/'']
   \<and> fst (is_signed_in account_driver (start 0))
   \<and> take 2 (trace (navigate_back_to_homepage account_driver ''https://www.bluebella.com'' (start 0)))
       = [EvUrl ''https://www.bluebella.com/account/login'', EvGet ''https://www.bluebella.com'']"
proof -
  have i: "\<not> fst (is_signed_in idle_driver (start (0::nat)))" by code_simp
  have a: "fst (is_signed_in account_driver (start 0))" by code_simp
  have ui: "fst (d_current_url idle_driver (page (start (0::nat)))) = ''https://www.bluebella.com/''"
    by (simp add: idle_driver_def)
  have ua: "fst (d_current_url account_driver (page (start 0))) = ''https://www.bluebella.com/account/login''"
    by (simp add: account_driver_def idle_driver_def)
  have t: "trace (start (0::nat)) = []" "trace (start (0::nat) :: (nat, nat) session) = []"
    by (simp_all add: start_def)
  show ?thesis
    using i a
      signed_in_by_literal_prefix [of idle_driver "start (0::nat)" "''https://www.bluebella.com''"]
      signed_in_by_literal_prefix [of account_driver "start 0" "''https://www.bluebella.com''"]
    unfolding ui ua by (auto simp: start_def)
qed

section \<open>Properties of the product search\<close>

subsection \<open>What each call adds to the log\<close>
lemma find_elements_trace:
  "find_elements drv loc s = (ps, s1) \<Longrightarrow> trace s1 = trace s @ [EvQuery loc ps]"
  by (auto simp: find_elements_def emit_def split: prod.splits)

lemma execute_scroll_to_trace: "trace (execute_scroll_to drv y s) = trace s @ [EvScrollTo y]"
  by (simp add: execute_scroll_to_def emit_def)

lemma scroll_to_element_trace:
  "scroll_to_element drv n s = (r, s1) \<Longrightarrow> trace s1 = trace s @ [EvIntoView n r]"
  by (auto simp: scroll_to_element_def emit_def split: prod.splits)

lemma product_title_trace:
  "product_title drv n s = (a, s1) \<Longrightarrow> trace s1 = trace s @ [EvTitle n a]"
  by (auto simp: product_title_def emit_def split: prod.splits)

lemma execute_bottom_probe_trace:
  "execute_bottom_probe drv s = ((h, y), s1) \<Longrightarrow> trace s1 = trace s @ [EvBottom h y]"
  by (auto simp: execute_bottom_probe_def emit_def split: prod.splits)

lemma execute_scroll_height_trace:
  "execute_scroll_height drv s = (h, s1) \<Longrightarrow> trace s1 = trace s @ [EvScrollHeight h]"
  by (auto simp: execute_scroll_height_def emit_def split: prod.splits)

lemma located_trace:
  "\<exists>e. is_located e \<and> trace (snd (located drv c s)) = trace s @ [e]"
  by (simp add: located_def emit_def split: prod.splits)

lemma poll_find_elements_trace:
  "\<exists>e. quiet e \<and> trace (snd (poll_find_elements drv loc s)) = trace s @ [e]"
  by (simp add: poll_find_elements_def find_elements_def emit_def split: prod.splits)

lemma wait_for_element_present_trace:
  assumes "wait_for_element_present drv w loc t s = (r, s1)"
  shows "\<exists>polls. trace s1 = trace s @ polls \<and> (\<forall>e\<in>set polls. is_located e)"
  using assms until_trace [of is_located "located drv (presence_of_element_located loc)"
      "polls_within drv (py_or t (timeout w))" s] located_trace [of drv]
  by (auto simp: wait_for_element_present_def WebDriverWait_until_def)

lemma wait_for_elements_present_trace:
  assumes "wait_for_elements_present drv w loc t min_count s = (r, s1)"
  shows "\<exists>polls. trace s1 = trace s @ polls \<and> (\<forall>e\<in>set polls. quiet e)"
  using assms until_trace [of quiet "poll_find_elements drv loc"
      "polls_within drv (py_or t (timeout w))" s] poll_find_elements_trace [of drv loc]
  by (auto simp: wait_for_elements_present_def WebDriverWait_until_def
      split: prod.splits sum.splits if_splits)

lemma wait_for_lazy_content_trace:
  assumes "wait_for_lazy_content drv w cfg min_count s = (r, s1)"
  shows "\<exists>polls. trace s1 = trace s @ polls \<and> (\<forall>e\<in>set polls. quiet e)"
proof -
  obtain r0 where "wait_for_elements_present drv w product_grid_items (Some (short_timeout cfg))
      min_count s = (r0, s1)"
    using assms by (auto simp: wait_for_lazy_content_def split: prod.splits sum.splits)
  then show ?thesis by (rule wait_for_elements_present_trace)
qed

lemma is_located_quiet: "is_located e \<Longrightarrow> quiet e"
  by (cases e) auto

lemma quiet_scroll_targets: "\<forall>e\<in>set evs. quiet e \<Longrightarrow> scroll_targets evs = []"
proof (induction evs)
  case Nil
  show ?case by (simp add: scroll_targets_def)
next
  case (Cons e evs)
  then have "scroll_target e = []" by (cases e) auto
  then show ?case using Cons by (simp add: scroll_targets_def)
qed

lemma quiet_not_at_bottom: "quiet e \<Longrightarrow> \<not> at_bottom e"
  by (cases e) auto

lemma scroll_targets_append [simp]:
  "scroll_targets (xs @ ys) = scroll_targets xs @ scroll_targets ys"
  by (simp add: scroll_targets_def)

lemma scroll_targets_Nil [simp]: "scroll_targets [] = []"
  by (simp add: scroll_targets_def)

lemma scroll_targets_Cons:
  "scroll_targets (e # es) = scroll_target e @ scroll_targets es"
  by (simp add: scroll_targets_def)

lemma wait_for_element_present_raise:
  assumes "wait_for_element_present drv w loc t s = (Inl e, s1)" and "e \<noteq> TimeoutException"
  shows "\<exists>polls. trace s1 = trace s @ polls @ [EvLocated (presence_of_element_located loc) (Inl e)]
           \<and> (\<forall>x\<in>set polls. is_located x)"
proof -
  have u: "until n (located drv (presence_of_element_located loc)) s = (Inl e, s1)
      \<Longrightarrow> \<exists>polls. trace s1 = trace s @ polls @ [EvLocated (presence_of_element_located loc) (Inl e)]
           \<and> (\<forall>x\<in>set polls. is_located x)" for n s
  proof (induction n arbitrary: s)
    case 0
    obtain r d where r: "d_located drv (presence_of_element_located loc) (page s) = (r, d)"
      by (cases "d_located drv (presence_of_element_located loc) (page s)")
    have "r = Inl e \<and> s1 = emit (EvLocated (presence_of_element_located loc) r) d s"
      using 0 r assms(2) by (auto simp: located_def split: sum.splits option.splits if_splits)
    then show ?case
      apply (rule_tac x = "[]" in exI)
      apply (simp add: emit_def)
      done
  next
    case (Suc n)
    obtain r d where r: "d_located drv (presence_of_element_located loc) (page s) = (r, d)"
      by (cases "d_located drv (presence_of_element_located loc) (page s)")
    let ?s1 = "emit (EvLocated (presence_of_element_located loc) r) d s"
    have l: "located drv (presence_of_element_located loc) s = (r, ?s1)"
      using r by (simp add: located_def)
    consider (here) "r = Inl e" "s1 = ?s1"
      | (later) "until n (located drv (presence_of_element_located loc)) ?s1 = (Inl e, s1)"
      using Suc.prems l by (auto split: sum.splits option.splits if_splits)
    then show ?case
    proof cases
      case here
      then show ?thesis
        apply (rule_tac x = "[]" in exI)
        apply (simp add: emit_def)
        done
    next
      case later
      obtain polls where p: "trace s1 = trace ?s1 @ polls
            @ [EvLocated (presence_of_element_located loc) (Inl e)]"
          "\<forall>x\<in>set polls. is_located x"
        using Suc.IH [OF later] by blast
      have "trace s1 = trace s @ (EvLocated (presence_of_element_located loc) r # polls)
            @ [EvLocated (presence_of_element_located loc) (Inl e)]
          \<and> (\<forall>x\<in>set (EvLocated (presence_of_element_located loc) r # polls). is_located x)"
        using p by (simp add: emit_def)
      then show ?thesis by blast
    qed
  qed
  show ?thesis
    using assms(1) u [of "polls_within drv (py_or t (timeout w))" s]
    by (simp add: wait_for_element_present_def WebDriverWait_until_def)
qed

lemma wait_for_element_present_not_ignored:
  "fst (wait_for_element_present drv w loc t s) \<noteq> Inl NoSuchElementException"
  unfolding wait_for_element_present_def WebDriverWait_until_def by (rule until_not_ignored)

lemma skipped_raise:
  assumes "wait_for_element_present drv w loc t s = (Inl e, s1)" and "skipped e"
  shows "e = StaleElementReferenceException \<and> e \<noteq> TimeoutException"
  using assms wait_for_element_present_not_ignored [of drv w loc t s]
  by (auto simp: skipped_def)

subsection \<open>One tile of a scan\<close>

text \<open>
  A tile of a scan is passed over (the scan goes on with the next tile, and the events of
  the tile are those of \<open>passed_over\<close>), or it is returned, or it raises an exception
  that is not of the two classes of the \<^verbatim>\<open>except\<close> clause.
\<close>
lemma passed_over_quiet: "passed_over product_name n seg \<Longrightarrow> \<forall>e\<in>set seg. quiet e"
proof -
  assume p: "passed_over product_name n seg"
  have "\<exists>m a rest. seg = EvTitle m a # rest"
  proof (cases seg)
    case Nil
    then show ?thesis using p by simp
  next
    case (Cons x rest)
    then show ?thesis using p by (cases x) auto
  qed
  then obtain m a rest where seg: "seg = EvTitle m a # rest" by blast
  show ?thesis
  proof (cases rest)
    case Nil
    then show ?thesis using seg by simp
  next
    case (Cons x polls)
    then obtain m' r where x: "x = EvIntoView m' r"
      using p seg by (cases x) auto
    show ?thesis
    proof (cases r)
      case None
      then have "list_all is_located polls" using p seg Cons x by simp
      then have "\<forall>e\<in>set polls. quiet e" by (auto simp: list_all_iff intro: is_located_quiet)
      then show ?thesis using seg Cons x by simp
    next
      case (Some e)
      then have "polls = []" using p seg Cons x by simp
      then show ?thesis using seg Cons x by simp
    qed
  qed
qed

lemma passed_over_miss: "\<not> title_hit product_name a \<Longrightarrow> passed_over product_name n [EvTitle n a]"
  by simp

lemma passed_over_view:
  "strip ttl = product_name \<Longrightarrow> skipped e
   \<Longrightarrow> passed_over product_name n [EvTitle n (Inr ttl), EvIntoView n (Some e)]"
  by simp

lemma passed_over_wait:
  "strip ttl = product_name \<Longrightarrow> skipped e \<Longrightarrow> \<forall>x\<in>set polls. is_located x
   \<Longrightarrow> passed_over product_name n
         (EvTitle n (Inr ttl) # EvIntoView n None # polls @ [EvLocated c (Inl e)])"
  by (simp add: list_all_iff)

lemma scan_products_head:
  "(\<exists>sc seg. scan_products drv w cfg product_name (q # ps) s
                = scan_products drv w cfg product_name ps sc
             \<and> trace sc = trace s @ seg \<and> passed_over product_name q seg)
   \<or> (\<exists>s3 ttl polls. scan_products drv w cfg product_name (q # ps) s = (Inr (Some q), s3)
             \<and> trace s3 = trace s @ [EvTitle q (Inr ttl), EvIntoView q None] @ polls
             \<and> strip ttl = product_name \<and> (\<forall>e\<in>set polls. is_located e))
   \<or> (\<exists>e s3 evs. scan_products drv w cfg product_name (q # ps) s = (Inl e, s3)
             \<and> \<not> skipped e \<and> trace s3 = trace s @ evs \<and> (\<forall>x\<in>set evs. quiet x))"
proof -
  obtain a s1 where a: "product_title drv q s = (a, s1)" by (cases "product_title drv q s")
  have t1: "trace s1 = trace s @ [EvTitle q a]" by (rule product_title_trace [OF a])
  show ?thesis
  proof (cases "title_hit product_name a")
    case False
    show ?thesis
    proof (cases "\<exists>e. a = Inl e \<and> \<not> skipped e")
      case True
      then obtain e where e: "a = Inl e" "\<not> skipped e" by blast
      have "scan_products drv w cfg product_name (q # ps) s = (Inl e, s1)
          \<and> \<not> skipped e \<and> trace s1 = trace s @ [EvTitle q a]
          \<and> (\<forall>x\<in>set [EvTitle q a]. quiet x)"
        using a e t1 by simp
      then show ?thesis by blast
    next
      case no_raise: False
      have "scan_products drv w cfg product_name (q # ps) s
            = scan_products drv w cfg product_name ps s1"
        using a False no_raise by (cases a) auto
      then have "scan_products drv w cfg product_name (q # ps) s
            = scan_products drv w cfg product_name ps s1
          \<and> trace s1 = trace s @ [EvTitle q a] \<and> passed_over product_name q [EvTitle q a]"
        using t1 False by simp
      then show ?thesis by blast
    qed
  next
    case True
    then obtain ttl where ttl: "a = Inr ttl" "strip ttl = product_name" by (cases a) auto
    obtain r s2 where r: "scroll_to_element drv q s1 = (r, s2)"
      by (cases "scroll_to_element drv q s1")
    have t2: "trace s2 = trace s @ [EvTitle q (Inr ttl), EvIntoView q r]"
      using scroll_to_element_trace [OF r] t1 ttl by simp
    show ?thesis
    proof (cases r)
      case (Some e)
      show ?thesis
      proof (cases "skipped e")
        case True
        have "scan_products drv w cfg product_name (q # ps) s
              = scan_products drv w cfg product_name ps s2
            \<and> trace s2 = trace s @ [EvTitle q (Inr ttl), EvIntoView q (Some e)]
            \<and> passed_over product_name q [EvTitle q (Inr ttl), EvIntoView q (Some e)]"
          using a ttl r Some True t2 by simp
        then show ?thesis by blast
      next
        case False
        have "scan_products drv w cfg product_name (q # ps) s = (Inl e, s2)
            \<and> \<not> skipped e \<and> trace s2 = trace s @ [EvTitle q (Inr ttl), EvIntoView q (Some e)]
            \<and> (\<forall>x\<in>set [EvTitle q (Inr ttl), EvIntoView q (Some e)]. quiet x)"
          using a ttl r Some False t2 by simp
        then show ?thesis by blast
      qed
    next
      case None
      obtain rw s3 where rw: "wait_for_element_present drv w title_locator
          (Some (short_timeout cfg)) s2 = (rw, s3)"
        by (cases "wait_for_element_present drv w title_locator (Some (short_timeout cfg)) s2")
      obtain polls where polls: "trace s3 = trace s2 @ polls" "\<forall>e\<in>set polls. is_located e"
        using wait_for_element_present_trace [OF rw] by blast
      have t3: "trace s3 = trace s @ [EvTitle q (Inr ttl), EvIntoView q None] @ polls"
        using polls(1) t2 None by simp
      show ?thesis
      proof (cases rw)
        case (Inr found)
        have "scan_products drv w cfg product_name (q # ps) s = (Inr (Some q), s3)
            \<and> trace s3 = trace s @ [EvTitle q (Inr ttl), EvIntoView q None] @ polls
            \<and> strip ttl = product_name \<and> (\<forall>e\<in>set polls. is_located e)"
          using a ttl r None rw Inr t3 polls(2) by simp
        then show ?thesis by blast
      next
        case (Inl e)
        show ?thesis
        proof (cases "skipped e")
          case True
          have ne: "e \<noteq> TimeoutException" using True by (auto simp: skipped_def)
          obtain before where b:
              "trace s3 = trace s2 @ before @ [EvLocated (presence_of_element_located title_locator) (Inl e)]"
              "\<forall>x\<in>set before. is_located x"
            using wait_for_element_present_raise [of drv w title_locator "Some (short_timeout cfg)" s2 e s3]
              rw Inl ne by blast
          have "scan_products drv w cfg product_name (q # ps) s
                = scan_products drv w cfg product_name ps s3
              \<and> trace s3 = trace s @ (EvTitle q (Inr ttl) # EvIntoView q None # before
                    @ [EvLocated (presence_of_element_located title_locator) (Inl e)])
              \<and> passed_over product_name q (EvTitle q (Inr ttl) # EvIntoView q None # before
                    @ [EvLocated (presence_of_element_located title_locator) (Inl e)])"
            using a ttl r None rw Inl True t2 b passed_over_wait [OF ttl(2) True b(2)] by simp
          then show ?thesis by blast
        next
          case False
          have "scan_products drv w cfg product_name (q # ps) s = (Inl e, s3)
              \<and> \<not> skipped e
              \<and> trace s3 = trace s @ ([EvTitle q (Inr ttl), EvIntoView q None] @ polls)
              \<and> (\<forall>x\<in>set ([EvTitle q (Inr ttl), EvIntoView q None] @ polls). quiet x)"
            using a ttl r None rw Inl False t3 polls(2) by (auto intro: is_located_quiet)
          then show ?thesis by blast
        qed
      qed
    qed
  qed
qed

lemma final_scan_head:
  "(\<exists>sc seg. final_scan drv product_name (q # ps) s = final_scan drv product_name ps sc
             \<and> trace sc = trace s @ seg \<and> passed_over product_name q seg)
   \<or> (\<exists>s3 ttl. final_scan drv product_name (q # ps) s = (Inr (Some q), s3)
             \<and> trace s3 = trace s @ [EvTitle q (Inr ttl), EvIntoView q None]
             \<and> strip ttl = product_name)
   \<or> (\<exists>e s3 evs. final_scan drv product_name (q # ps) s = (Inl e, s3)
             \<and> \<not> skipped e \<and> trace s3 = trace s @ evs \<and> (\<forall>x\<in>set evs. quiet x))"
proof -
  obtain a s1 where a: "product_title drv q s = (a, s1)" by (cases "product_title drv q s")
  have t1: "trace s1 = trace s @ [EvTitle q a]" by (rule product_title_trace [OF a])
  show ?thesis
  proof (cases "title_hit product_name a")
    case False
    show ?thesis
    proof (cases "\<exists>e. a = Inl e \<and> \<not> skipped e")
      case True
      then obtain e where e: "a = Inl e" "\<not> skipped e" by blast
      have "final_scan drv product_name (q # ps) s = (Inl e, s1)
          \<and> \<not> skipped e \<and> trace s1 = trace s @ [EvTitle q a]
          \<and> (\<forall>x\<in>set [EvTitle q a]. quiet x)"
        using a e t1 by simp
      then show ?thesis by blast
    next
      case no_raise: False
      have "final_scan drv product_name (q # ps) s = final_scan drv product_name ps s1"
        using a False no_raise by (cases a) auto
      then have "final_scan drv product_name (q # ps) s = final_scan drv product_name ps s1
          \<and> trace s1 = trace s @ [EvTitle q a] \<and> passed_over product_name q [EvTitle q a]"
        using t1 False by simp
      then show ?thesis by blast
    qed
  next
    case True
    then obtain ttl where ttl: "a = Inr ttl" "strip ttl = product_name" by (cases a) auto
    obtain r s2 where r: "scroll_to_element drv q s1 = (r, s2)"
      by (cases "scroll_to_element drv q s1")
    have t2: "trace s2 = trace s @ [EvTitle q (Inr ttl), EvIntoView q r]"
      using scroll_to_element_trace [OF r] t1 ttl by simp
    show ?thesis
    proof (cases r)
      case (Some e)
      show ?thesis
      proof (cases "skipped e")
        case True
        have "final_scan drv product_name (q # ps) s = final_scan drv product_name ps s2
            \<and> trace s2 = trace s @ [EvTitle q (Inr ttl), EvIntoView q (Some e)]
            \<and> passed_over product_name q [EvTitle q (Inr ttl), EvIntoView q (Some e)]"
          using a ttl r Some True t2 by simp
        then show ?thesis by blast
      next
        case False
        have "final_scan drv product_name (q # ps) s = (Inl e, s2)
            \<and> \<not> skipped e \<and> trace s2 = trace s @ [EvTitle q (Inr ttl), EvIntoView q (Some e)]
            \<and> (\<forall>x\<in>set [EvTitle q (Inr ttl), EvIntoView q (Some e)]. quiet x)"
          using a ttl r Some False t2 by simp
        then show ?thesis by blast
      qed
    next
      case None
      have "final_scan drv product_name (q # ps) s = (Inr (Some q), s2)
          \<and> trace s2 = trace s @ [EvTitle q (Inr ttl), EvIntoView q None]
          \<and> strip ttl = product_name"
        using a ttl r None t2 by simp
      then show ?thesis by blast
    qed
  qed
qed

subsection \<open>The two scans of a list of tiles\<close>

lemma scan_products_error:
  "scan_products drv w cfg product_name ps s = (Inl e, s') \<Longrightarrow> \<not> skipped e"
proof (induction ps arbitrary: s)
  case Nil
  then show ?case by simp
next
  case (Cons q ps)
  from scan_products_head [of drv w cfg product_name q ps s] Cons.prems
  consider (skip) sc where "scan_products drv w cfg product_name ps sc = (Inl e, s')"
    | (raise) "\<not> skipped e"
    by (auto simp del: scan_products.simps)
  then show ?case
  proof cases
    case skip
    then show ?thesis by (rule Cons.IH)
  next
    case raise
    then show ?thesis .
  qed
qed

lemma final_scan_error:
  "final_scan drv product_name ps s = (Inl e, s') \<Longrightarrow> \<not> skipped e"
proof (induction ps arbitrary: s)
  case Nil
  then show ?case by simp
next
  case (Cons q ps)
  from final_scan_head [of drv product_name q ps s] Cons.prems
  consider (skip) sc where "final_scan drv product_name ps sc = (Inl e, s')"
    | (raise) "\<not> skipped e"
    by (auto simp del: final_scan.simps)
  then show ?case
  proof cases
    case skip
    then show ?thesis by (rule Cons.IH)
  next
    case raise
    then show ?thesis .
  qed
qed

lemma final_scan_none:
  "final_scan drv product_name ps s = (Inr None, s') \<Longrightarrow>
   \<exists>segs. list_all2 (passed_over product_name) ps segs \<and> trace s' = trace s @ concat segs"
proof (induction ps arbitrary: s)
  case Nil
  then show ?case by simp
next
  case (Cons q ps)
  from final_scan_head [of drv product_name q ps s] Cons.prems
  obtain sc seg where h: "final_scan drv product_name ps sc = (Inr None, s')"
      "trace sc = trace s @ seg" "passed_over product_name q seg"
    by auto
  obtain segs where segs: "list_all2 (passed_over product_name) ps segs"
      "trace s' = trace sc @ concat segs"
    using Cons.IH [OF h(1)] by blast
  have "list_all2 (passed_over product_name) (q # ps) (seg # segs)
      \<and> trace s' = trace s @ concat (seg # segs)"
    using h segs by simp
  then show ?case by blast
qed

lemma scan_products_found:
  "scan_products drv w cfg product_name ps s = (Inr (Some p), s') \<Longrightarrow>
   \<exists>earlier later segs ttl polls.
     ps = earlier @ p # later \<and> list_all2 (passed_over product_name) earlier segs
     \<and> strip ttl = product_name \<and> (\<forall>e\<in>set polls. is_located e)
     \<and> trace s' = trace s @ concat segs @ [EvTitle p (Inr ttl), EvIntoView p None] @ polls"
proof (induction ps arbitrary: s)
  case Nil
  then show ?case by simp
next
  case (Cons q ps)
  from scan_products_head [of drv w cfg product_name q ps s] Cons.prems
  consider (skip) sc seg where "scan_products drv w cfg product_name ps sc = (Inr (Some p), s')"
      "trace sc = trace s @ seg" "passed_over product_name q seg"
    | (hit) ttl polls where "p = q"
      "trace s' = trace s @ [EvTitle q (Inr ttl), EvIntoView q None] @ polls"
      "strip ttl = product_name" "\<forall>e\<in>set polls. is_located e"
    by auto
  then show ?case
  proof cases
    case skip
    obtain earlier later segs ttl polls where ih:
        "ps = earlier @ p # later" "list_all2 (passed_over product_name) earlier segs"
        "strip ttl = product_name" "\<forall>e\<in>set polls. is_located e"
        "trace s' = trace sc @ concat segs @ [EvTitle p (Inr ttl), EvIntoView p None] @ polls"
      using Cons.IH [OF skip(1)] by blast
    have "q # ps = (q # earlier) @ p # later
        \<and> list_all2 (passed_over product_name) (q # earlier) (seg # segs)
        \<and> strip ttl = product_name \<and> (\<forall>e\<in>set polls. is_located e)
        \<and> trace s' = trace s @ concat (seg # segs)
              @ [EvTitle p (Inr ttl), EvIntoView p None] @ polls"
      using ih skip by simp
    then show ?thesis by blast
  next
    case hit
    show ?thesis
      apply (rule_tac x = "[]" in exI)
      apply (rule_tac x = ps in exI)
      apply (rule_tac x = "[]" in exI)
      apply (rule_tac x = ttl in exI)
      apply (rule_tac x = polls in exI)
      using hit apply simp
      done
  qed
qed

lemma final_scan_found:
  "final_scan drv product_name ps s = (Inr (Some p), s') \<Longrightarrow>
   \<exists>earlier later segs ttl.
     ps = earlier @ p # later \<and> list_all2 (passed_over product_name) earlier segs
     \<and> strip ttl = product_name
     \<and> trace s' = trace s @ concat segs @ [EvTitle p (Inr ttl), EvIntoView p None]"
proof (induction ps arbitrary: s)
  case Nil
  then show ?case by simp
next
  case (Cons q ps)
  from final_scan_head [of drv product_name q ps s] Cons.prems
  consider (skip) sc seg where "final_scan drv product_name ps sc = (Inr (Some p), s')"
      "trace sc = trace s @ seg" "passed_over product_name q seg"
    | (hit) ttl where "p = q"
      "trace s' = trace s @ [EvTitle q (Inr ttl), EvIntoView q None]"
      "strip ttl = product_name"
    by auto
  then show ?case
  proof cases
    case skip
    obtain earlier later segs ttl where ih:
        "ps = earlier @ p # later" "list_all2 (passed_over product_name) earlier segs"
        "strip ttl = product_name"
        "trace s' = trace sc @ concat segs @ [EvTitle p (Inr ttl), EvIntoView p None]"
      using Cons.IH [OF skip(1)] by blast
    have "q # ps = (q # earlier) @ p # later
        \<and> list_all2 (passed_over product_name) (q # earlier) (seg # segs)
        \<and> strip ttl = product_name
        \<and> trace s' = trace s @ concat (seg # segs)
              @ [EvTitle p (Inr ttl), EvIntoView p None]"
      using ih skip by simp
    then show ?thesis by blast
  next
    case hit
    show ?thesis
      apply (rule_tac x = "[]" in exI)
      apply (rule_tac x = ps in exI)
      apply (rule_tac x = "[]" in exI)
      apply (rule_tac x = ttl in exI)
      using hit apply simp
      done
  qed
qed

lemma scan_products_quiet:
  "scan_products drv w cfg product_name ps s = (r, s') \<Longrightarrow>
   \<exists>evs. trace s' = trace s @ evs \<and> (\<forall>e\<in>set evs. quiet e)"
proof (induction ps arbitrary: s)
  case Nil
  then show ?case by simp
next
  case (Cons q ps)
  from scan_products_head [of drv w cfg product_name q ps s] Cons.prems
  consider (skip) sc seg where "scan_products drv w cfg product_name ps sc = (r, s')"
      "trace sc = trace s @ seg" "passed_over product_name q seg"
    | (hit) ttl polls where
      "trace s' = trace s @ [EvTitle q (Inr ttl), EvIntoView q None] @ polls"
      "\<forall>e\<in>set polls. is_located e"
    | (raise) evs where "trace s' = trace s @ evs" "\<forall>x\<in>set evs. quiet x"
    by auto
  then show ?case
  proof cases
    case skip
    obtain evs where evs: "trace s' = trace sc @ evs" "\<forall>e\<in>set evs. quiet e"
      using Cons.IH [OF skip(1)] by blast
    have "trace s' = trace s @ (seg @ evs) \<and> (\<forall>e\<in>set (seg @ evs). quiet e)"
      using evs skip(2) passed_over_quiet [OF skip(3)] by auto
    then show ?thesis by blast
  next
    case hit
    have "trace s' = trace s @ ([EvTitle q (Inr ttl), EvIntoView q None] @ polls)
        \<and> (\<forall>e\<in>set ([EvTitle q (Inr ttl), EvIntoView q None] @ polls). quiet e)"
      using hit by (auto intro: is_located_quiet)
    then show ?thesis by blast
  next
    case raise
    then show ?thesis by blast
  qed
qed

lemma final_scan_quiet:
  "final_scan drv product_name ps s = (r, s') \<Longrightarrow>
   \<exists>evs. trace s' = trace s @ evs \<and> (\<forall>e\<in>set evs. quiet e)"
proof (induction ps arbitrary: s)
  case Nil
  then show ?case by simp
next
  case (Cons q ps)
  from final_scan_head [of drv product_name q ps s] Cons.prems
  consider (skip) sc seg where "final_scan drv product_name ps sc = (r, s')"
      "trace sc = trace s @ seg" "passed_over product_name q seg"
    | (hit) ttl where
      "trace s' = trace s @ [EvTitle q (Inr ttl), EvIntoView q None]"
    | (raise) evs where "trace s' = trace s @ evs" "\<forall>x\<in>set evs. quiet x"
    by auto
  then show ?case
  proof cases
    case skip
    obtain evs where evs: "trace s' = trace sc @ evs" "\<forall>e\<in>set evs. quiet e"
      using Cons.IH [OF skip(1)] by blast
    have "trace s' = trace s @ (seg @ evs) \<and> (\<forall>e\<in>set (seg @ evs). quiet e)"
      using evs skip(2) passed_over_quiet [OF skip(3)] by auto
    then show ?thesis by blast
  next
    case hit
    have "trace s' = trace s @ [EvTitle q (Inr ttl), EvIntoView q None]
        \<and> (\<forall>e\<in>set [EvTitle q (Inr ttl), EvIntoView q None]. quiet e)"
      using hit by simp
    then show ?thesis by blast
  next
    case raise
    then show ?thesis by blast
  qed
qed

subsection \<open>The scanning loop, case by case\<close>

text \<open>
  One rule for every property of the loop: a property holds of \<^verbatim>\<open>scan_loop\<close> when it
  holds at the end of the range and is carried by each of the seven ways an iteration
  can go.
\<close>

lemma scan_loop_rule [case_names exhausted empty_raise empty_next scan_raise scan_found lazy_raise bottom next_round]:
  assumes "\<And>pos lh s. P 0 pos lh s (Inr None, s)"
    and "\<And>k pos lh s s1 e s3.
      \<lbrakk>find_elements drv product_grid_items s = ([], s1);
       wait_for_element_present drv w product_grid_items (Some (short_timeout cfg))
         (execute_scroll_to drv (pos + scroll_amount) s1) = (Inl e, s3)\<rbrakk>
      \<Longrightarrow> P (Suc k) pos lh s (Inl e, s3)"
    and "\<And>k pos lh s s1 n s3.
      \<lbrakk>find_elements drv product_grid_items s = ([], s1);
       wait_for_element_present drv w product_grid_items (Some (short_timeout cfg))
         (execute_scroll_to drv (pos + scroll_amount) s1) = (Inr n, s3);
       P k (pos + scroll_amount) lh s3 (scan_loop drv w cfg product_name k (pos + scroll_amount) lh s3)\<rbrakk>
      \<Longrightarrow> P (Suc k) pos lh s (scan_loop drv w cfg product_name k (pos + scroll_amount) lh s3)"
    and "\<And>k pos lh s products s1 e s2.
      \<lbrakk>find_elements drv product_grid_items s = (products, s1); products \<noteq> [];
       scan_products drv w cfg product_name products s1 = (Inl e, s2)\<rbrakk>
      \<Longrightarrow> P (Suc k) pos lh s (Inl e, s2)"
    and "\<And>k pos lh s products s1 p s2.
      \<lbrakk>find_elements drv product_grid_items s = (products, s1); products \<noteq> [];
       scan_products drv w cfg product_name products s1 = (Inr (Some p), s2)\<rbrakk>
      \<Longrightarrow> P (Suc k) pos lh s (Inr (Some p), s2)"
    and "\<And>k pos lh s products s1 s2 e s4.
      \<lbrakk>find_elements drv product_grid_items s = (products, s1); products \<noteq> [];
       scan_products drv w cfg product_name products s1 = (Inr None, s2);
       wait_for_lazy_content drv w cfg (length products)
         (execute_scroll_to drv (pos + scroll_amount) s2) = (Some e, s4)\<rbrakk>
      \<Longrightarrow> P (Suc k) pos lh s (Inl e, s4)"
    and "\<And>k pos lh s products s1 s2 s4 h y s5.
      \<lbrakk>find_elements drv product_grid_items s = (products, s1); products \<noteq> [];
       scan_products drv w cfg product_name products s1 = (Inr None, s2);
       wait_for_lazy_content drv w cfg (length products)
         (execute_scroll_to drv (pos + scroll_amount) s2) = (None, s4);
       execute_bottom_probe drv s4 = ((h, y), s5); y + 500 \<ge> h\<rbrakk>
      \<Longrightarrow> P (Suc k) pos lh s (Inr None, s5)"
    and "\<And>k pos lh s products s1 s2 s4 h y s5 lh'.
      \<lbrakk>find_elements drv product_grid_items s = (products, s1); products \<noteq> [];
       scan_products drv w cfg product_name products s1 = (Inr None, s2);
       wait_for_lazy_content drv w cfg (length products)
         (execute_scroll_to drv (pos + scroll_amount) s2) = (None, s4);
       execute_bottom_probe drv s4 = ((h, y), s5); \<not> y + 500 \<ge> h;
       lh' = (if h > lh then h else lh);
       P k (pos + scroll_amount) lh' s5 (scan_loop drv w cfg product_name k (pos + scroll_amount) lh' s5)\<rbrakk>
      \<Longrightarrow> P (Suc k) pos lh s (scan_loop drv w cfg product_name k (pos + scroll_amount) lh' s5)"
  shows "P k pos lh s (scan_loop drv w cfg product_name k pos lh s)"
proof (induction k arbitrary: pos lh s)
  case 0
  show ?case using assms(1) by simp
next
  case (Suc k)
  obtain products s1 where q: "find_elements drv product_grid_items s = (products, s1)"
    by (cases "find_elements drv product_grid_items s")
  show ?case
  proof (cases "products = []")
    case True
    obtain rw s3 where rw: "wait_for_element_present drv w product_grid_items
        (Some (short_timeout cfg)) (execute_scroll_to drv (pos + scroll_amount) s1) = (rw, s3)"
      by (cases "wait_for_element_present drv w product_grid_items
        (Some (short_timeout cfg)) (execute_scroll_to drv (pos + scroll_amount) s1)")
    show ?thesis
    proof (cases rw)
      case (Inl e)
      then show ?thesis using assms(2) [of s s1 pos e s3 k lh] q True rw by simp
    next
      case (Inr n)
      then show ?thesis
        using assms(3) [of s s1 pos n s3 k lh] q True rw Suc.IH [of "pos + scroll_amount" lh s3]
        by simp
    qed
  next
    case False
    obtain r2 s2 where sp: "scan_products drv w cfg product_name products s1 = (r2, s2)"
      by (cases "scan_products drv w cfg product_name products s1")
    obtain r4 s4 where lz: "wait_for_lazy_content drv w cfg (length products)
        (execute_scroll_to drv (pos + scroll_amount) s2) = (r4, s4)"
      by (cases "wait_for_lazy_content drv w cfg (length products)
        (execute_scroll_to drv (pos + scroll_amount) s2)")
    obtain h y s5 where bp: "execute_bottom_probe drv s4 = ((h, y), s5)"
      by (cases "execute_bottom_probe drv s4") auto
    show ?thesis
    proof (cases r2)
      case (Inl e)
      then show ?thesis using assms(4) [of s products s1 e s2 k pos lh] q False sp by simp
    next
      case (Inr found)
      show ?thesis
      proof (cases found)
        case (Some p)
        then show ?thesis using assms(5) [of s products s1 p s2 k pos lh] q False sp Inr by simp
      next
        case None
        show ?thesis
        proof (cases r4)
          case (Some e)
          then show ?thesis
            using assms(6) [of s products s1 s2 pos e s4 k lh] q False sp Inr None lz by simp
        next
          case no_error: None
          show ?thesis
          proof (cases "y + 500 \<ge> h")
            case True
            then show ?thesis
              using assms(7) [of s products s1 s2 pos s4 h y s5 k lh] q False sp Inr None lz
                no_error bp by simp
          next
            case far: False
            then show ?thesis
              using assms(8) [of s products s1 s2 pos s4 h y s5 "if h > lh then h else lh" lh k]
                q False sp Inr None lz no_error bp
                Suc.IH [of "pos + scroll_amount" "if h > lh then h else lh" s5]
              by simp
          qed
        qed
      qed
    qed
  qed
qed

lemma wait_for_lazy_content_no_error:
  "fst (wait_for_lazy_content drv w cfg min_count s) = None"
  using wait_elements_present_error [of drv w product_grid_items "Some (short_timeout cfg)" min_count s]
  by (auto simp: wait_for_lazy_content_def split: prod.splits sum.splits)

lemma empty_round_trace:
  assumes "find_elements drv product_grid_items s = (products, s1)"
    and "wait_for_element_present drv w loc t (execute_scroll_to drv y s1) = (r, s3)"
  shows "\<exists>polls. trace s3 = trace s @ EvQuery product_grid_items products # EvScrollTo y # polls
           \<and> (\<forall>e\<in>set polls. quiet e)"
proof -
  obtain polls where "trace s3 = trace (execute_scroll_to drv y s1) @ polls"
      "\<forall>e\<in>set polls. is_located e"
    using wait_for_element_present_trace [OF assms(2)] by blast
  then have "trace s3 = trace s @ EvQuery product_grid_items products # EvScrollTo y # polls
      \<and> (\<forall>e\<in>set polls. quiet e)"
    using find_elements_trace [OF assms(1)]
    by (auto simp: execute_scroll_to_trace intro: is_located_quiet)
  then show ?thesis by blast
qed

lemma full_round_trace:
  assumes "find_elements drv product_grid_items s = (products, s1)"
    and "scan_products drv w cfg product_name products s1 = (r2, s2)"
    and "wait_for_lazy_content drv w cfg min_count (execute_scroll_to drv y s2) = (r4, s4)"
  shows "\<exists>titles polls.
           trace s2 = trace s @ EvQuery product_grid_items products # titles
         \<and> trace s4 = trace s @ EvQuery product_grid_items products # titles @ EvScrollTo y # polls
         \<and> (\<forall>e\<in>set titles. quiet e) \<and> (\<forall>e\<in>set polls. quiet e)"
proof -
  obtain titles where titles: "trace s2 = trace s1 @ titles" "\<forall>e\<in>set titles. quiet e"
    using scan_products_quiet [OF assms(2)] by blast
  obtain polls where polls: "trace s4 = trace (execute_scroll_to drv y s2) @ polls"
      "\<forall>e\<in>set polls. quiet e"
    using wait_for_lazy_content_trace [OF assms(3)] by blast
  have "trace s2 = trace s @ EvQuery product_grid_items products # titles
      \<and> trace s4 = trace s @ EvQuery product_grid_items products # titles @ EvScrollTo y # polls
      \<and> (\<forall>e\<in>set titles. quiet e) \<and> (\<forall>e\<in>set polls. quiet e)"
    using titles polls find_elements_trace [OF assms(1)] by (simp add: execute_scroll_to_trace)
  then show ?thesis by blast
qed

lemma at_bottom_split:
  assumes "\<forall>x\<in>set A. \<not> at_bottom x" and "A @ B = before @ e # later" and "at_bottom e"
  shows "\<exists>mid. before = A @ mid \<and> B = mid @ e # later"
proof -
  from assms(2) consider (left) us where "A = before @ us" "us @ B = e # later"
    | (right) us where "A @ us = before" "B = us @ e # later"
    by (auto simp: append_eq_append_conv2)
  then show ?thesis
  proof cases
    case left
    show ?thesis
    proof (cases us)
      case Nil
      then show ?thesis using left by simp
    next
      case (Cons u us')
      then have "e \<in> set A" using left by auto
      then show ?thesis using assms(1,3) by blast
    qed
  next
    case right
    then show ?thesis by blast
  qed
qed

lemma at_bottom_prefix:
  assumes "\<forall>x\<in>set A. \<not> at_bottom x"
    and "\<forall>before e later. B = before @ e # later \<and> at_bottom e \<longrightarrow> Q later"
  shows "\<forall>before e later. A @ B = before @ e # later \<and> at_bottom e \<longrightarrow> Q later"
proof (intro allI impI)
  fix before e later
  assume h: "A @ B = before @ e # later \<and> at_bottom e"
  then obtain mid where "before = A @ mid" "B = mid @ e # later"
    using at_bottom_split [OF assms(1), of B before e later] by blast
  then show "Q later" using assms(2) h by blast
qed

lemma no_at_bottom:
  assumes "\<forall>x\<in>set A. \<not> at_bottom x"
  shows "\<forall>before e. (\<exists>later. A = before @ e # later) \<longrightarrow> \<not> at_bottom e"
proof (intro allI impI)
  fix before e
  assume "\<exists>later. A = before @ e # later"
  then have "e \<in> set A" by auto
  then show "\<not> at_bottom e" using assms by blast
qed

lemma ramp_0 [simp]: "ramp pos 0 = []"
  by (simp add: ramp_def)

lemma ramp_Suc: "ramp pos (Suc j) = (pos + scroll_amount) # ramp (pos + scroll_amount) j"
  by (simp add: ramp_def map_upt_Suc algebra_simps del: upt_Suc)

lemma scan_loop_error:
  "\<forall>e. fst (scan_loop drv w cfg product_name k pos lh s) = Inl e \<and> skipped e
     \<longrightarrow> e = StaleElementReferenceException
       \<and> (\<exists>front. trace (snd (scan_loop drv w cfg product_name k pos lh s))
             = trace s @ front
                 @ [EvLocated (presence_of_element_located product_grid_items) (Inl e)])"
proof (rule scan_loop_rule [where P = "\<lambda>k pos lh s res.
    \<forall>e. fst res = Inl e \<and> skipped e
     \<longrightarrow> e = StaleElementReferenceException
       \<and> (\<exists>front. trace (snd res) = trace s @ front
                 @ [EvLocated (presence_of_element_located product_grid_items) (Inl e)])"],
    goal_cases)
  case (2 k pos lh s s1 e s3)
  show ?case
  proof (cases "skipped e")
    case False
    then show ?thesis by auto
  next
    case True
    have st: "e = StaleElementReferenceException \<and> e \<noteq> TimeoutException"
      using skipped_raise [OF 2(2) True] .
    obtain polls where polls: "trace s3 = trace (execute_scroll_to drv (pos + scroll_amount) s1)
          @ polls @ [EvLocated (presence_of_element_located product_grid_items) (Inl e)]"
      using wait_for_element_present_raise [OF 2(2)] st by blast
    have "trace s3
        = trace s @ (EvQuery product_grid_items [] # EvScrollTo (pos + scroll_amount) # polls)
            @ [EvLocated (presence_of_element_located product_grid_items) (Inl e)]"
      using polls find_elements_trace [OF 2(1)] by (simp add: execute_scroll_to_trace)
    then have "\<exists>front. trace s3 = trace s @ front
            @ [EvLocated (presence_of_element_located product_grid_items) (Inl e)]"
      by blast
    then show ?thesis using st by simp
  qed
next
  case (3 k pos lh s s1 n s3)
  obtain polls where pre: "trace s3 = trace s @ EvQuery product_grid_items []
      # EvScrollTo (pos + scroll_amount) # polls"
    using empty_round_trace [OF 3(1) 3(2)] by blast
  show ?case
  proof (intro allI impI)
    fix x
    assume h: "fst (scan_loop drv w cfg product_name k (pos + scroll_amount) lh s3) = Inl x
        \<and> skipped x"
    then obtain front where f: "x = StaleElementReferenceException"
        "trace (snd (scan_loop drv w cfg product_name k (pos + scroll_amount) lh s3))
           = trace s3 @ front
               @ [EvLocated (presence_of_element_located product_grid_items) (Inl x)]"
      using 3(3) by blast
    have "trace (snd (scan_loop drv w cfg product_name k (pos + scroll_amount) lh s3))
        = trace s @ (EvQuery product_grid_items [] # EvScrollTo (pos + scroll_amount) # polls @ front)
            @ [EvLocated (presence_of_element_located product_grid_items) (Inl x)]"
      using f(2) pre by simp
    then show "x = StaleElementReferenceException
       \<and> (\<exists>front. trace (snd (scan_loop drv w cfg product_name k (pos + scroll_amount) lh s3))
             = trace s @ front
                 @ [EvLocated (presence_of_element_located product_grid_items) (Inl x)])"
      using f(1) by blast
  qed
next
  case (4 k pos lh s products s1 e s2)
  then show ?case using scan_products_error by fastforce
next
  case (6 k pos lh s products s1 s2 e s4)
  then show ?case
    using wait_for_lazy_content_no_error [of drv w cfg "length products"
        "execute_scroll_to drv (pos + scroll_amount) s2"] by simp
next
  case (8 k pos lh s products s1 s2 s4 h y s5 lh')
  obtain titles polls where pre:
      "trace s4 = trace s @ EvQuery product_grid_items products # titles
          @ EvScrollTo (pos + scroll_amount) # polls"
    using full_round_trace [OF 8(1) 8(3) 8(4)] by blast
  have t5: "trace s5 = trace s @ (EvQuery product_grid_items products # titles
          @ EvScrollTo (pos + scroll_amount) # polls @ [EvBottom h y])"
    using execute_bottom_probe_trace [OF 8(5)] pre by simp
  show ?case
  proof (intro allI impI)
    fix x
    assume h: "fst (scan_loop drv w cfg product_name k (pos + scroll_amount) lh' s5) = Inl x
        \<and> skipped x"
    then obtain front where f: "x = StaleElementReferenceException"
        "trace (snd (scan_loop drv w cfg product_name k (pos + scroll_amount) lh' s5))
           = trace s5 @ front
               @ [EvLocated (presence_of_element_located product_grid_items) (Inl x)]"
      using 8(8) by blast
    have "trace (snd (scan_loop drv w cfg product_name k (pos + scroll_amount) lh' s5))
        = trace s @ ((EvQuery product_grid_items products # titles
          @ EvScrollTo (pos + scroll_amount) # polls @ [EvBottom h y]) @ front)
            @ [EvLocated (presence_of_element_located product_grid_items) (Inl x)]"
      using f(2) t5 by simp
    then show "x = StaleElementReferenceException
       \<and> (\<exists>front. trace (snd (scan_loop drv w cfg product_name k (pos + scroll_amount) lh' s5))
             = trace s @ front
                 @ [EvLocated (presence_of_element_located product_grid_items) (Inl x)])"
      using f(1) by blast
  qed
qed simp_all

lemma found_shift:
  assumes "trace s1 = trace s @ pre"
    and "\<exists>front products earlier later segs ttl polls.
       trace s' = trace s1 @ front @ EvQuery product_grid_items products
           # concat segs @ [EvTitle p (Inr ttl), EvIntoView p None] @ polls
       \<and> products = earlier @ p # later \<and> list_all2 (passed_over product_name) earlier segs \<and> strip ttl = product_name
       \<and> (\<forall>e\<in>set polls. is_located e)"
  shows "\<exists>front products earlier later segs ttl polls.
       trace s' = trace s @ front @ EvQuery product_grid_items products
           # concat segs @ [EvTitle p (Inr ttl), EvIntoView p None] @ polls
       \<and> products = earlier @ p # later \<and> list_all2 (passed_over product_name) earlier segs \<and> strip ttl = product_name
       \<and> (\<forall>e\<in>set polls. is_located e)"
proof -
  obtain front products earlier later segs ttl polls where h:
      "trace s' = trace s1 @ front @ EvQuery product_grid_items products
           # concat segs @ [EvTitle p (Inr ttl), EvIntoView p None] @ polls"
      "products = earlier @ p # later" "list_all2 (passed_over product_name) earlier segs" "strip ttl = product_name"
      "\<forall>e\<in>set polls. is_located e"
    using assms(2) by blast
  show ?thesis
    using h assms(1)
    apply (rule_tac x = "pre @ front" in exI)
    apply (rule_tac x = products in exI)
    apply (rule_tac x = earlier in exI)
    apply (rule_tac x = later in exI)
    apply (rule_tac x = segs in exI)
    apply (rule_tac x = ttl in exI)
    apply (rule_tac x = polls in exI)
    apply simp
    done
qed

lemma scan_loop_found:
  "\<forall>p. fst (scan_loop drv w cfg product_name k pos lh s) = Inr (Some p) \<longrightarrow>
     (\<exists>front products earlier later segs ttl polls.
       trace (snd (scan_loop drv w cfg product_name k pos lh s))
         = trace s @ front @ EvQuery product_grid_items products
             # concat segs @ [EvTitle p (Inr ttl), EvIntoView p None] @ polls
       \<and> products = earlier @ p # later \<and> list_all2 (passed_over product_name) earlier segs \<and> strip ttl = product_name
       \<and> (\<forall>e\<in>set polls. is_located e))"
proof (rule scan_loop_rule [where P = "\<lambda>k pos lh s res. \<forall>p. fst res = Inr (Some p) \<longrightarrow>
     (\<exists>front products earlier later segs ttl polls.
       trace (snd res)
         = trace s @ front @ EvQuery product_grid_items products
             # concat segs @ [EvTitle p (Inr ttl), EvIntoView p None] @ polls
       \<and> products = earlier @ p # later \<and> list_all2 (passed_over product_name) earlier segs \<and> strip ttl = product_name
       \<and> (\<forall>e\<in>set polls. is_located e))"], goal_cases)
  case (3 k pos lh s s1 n s3)
  obtain polls where "trace s3 = trace s @ EvQuery product_grid_items [] # EvScrollTo (pos + scroll_amount) # polls"
    using empty_round_trace [OF 3(1) 3(2)] by blast
  then have tr: "trace s3 = trace s @ EvQuery product_grid_items [] # EvScrollTo (pos + scroll_amount) # polls" .
  show ?case
  proof (intro allI impI)
    fix p
    assume "fst (scan_loop drv w cfg product_name k (pos + scroll_amount) lh s3) = Inr (Some p)"
    then have "\<exists>front products earlier later segs ttl polls.
       trace (snd (scan_loop drv w cfg product_name k (pos + scroll_amount) lh s3))
         = trace s3 @ front @ EvQuery product_grid_items products
             # concat segs @ [EvTitle p (Inr ttl), EvIntoView p None] @ polls
       \<and> products = earlier @ p # later \<and> list_all2 (passed_over product_name) earlier segs \<and> strip ttl = product_name
       \<and> (\<forall>e\<in>set polls. is_located e)"
      using 3(3) by simp
    then show "\<exists>front products earlier later segs ttl polls.
       trace (snd (scan_loop drv w cfg product_name k (pos + scroll_amount) lh s3))
         = trace s @ front @ EvQuery product_grid_items products
             # concat segs @ [EvTitle p (Inr ttl), EvIntoView p None] @ polls
       \<and> products = earlier @ p # later \<and> list_all2 (passed_over product_name) earlier segs \<and> strip ttl = product_name
       \<and> (\<forall>e\<in>set polls. is_located e)"
      by (rule found_shift [OF tr])
  qed
next
  case (5 k pos lh s products s1 p s2)
  obtain earlier later segs ttl polls where h:
      "products = earlier @ p # later" "list_all2 (passed_over product_name) earlier segs" "strip ttl = product_name"
      "\<forall>e\<in>set polls. is_located e"
      "trace s2 = trace s1 @ concat segs @ [EvTitle p (Inr ttl), EvIntoView p None] @ polls"
    using scan_products_found [OF 5(3)] by blast
  have "\<exists>front products earlier later segs ttl polls.
       trace s2 = trace s @ front @ EvQuery product_grid_items products
             # concat segs @ [EvTitle p (Inr ttl), EvIntoView p None] @ polls
       \<and> products = earlier @ p # later \<and> list_all2 (passed_over product_name) earlier segs \<and> strip ttl = product_name
       \<and> (\<forall>e\<in>set polls. is_located e)"
    using h find_elements_trace [OF 5(1)]
    apply (rule_tac x = "[]" in exI)
    apply (rule_tac x = products in exI)
    apply (rule_tac x = earlier in exI)
    apply (rule_tac x = later in exI)
    apply (rule_tac x = segs in exI)
    apply (rule_tac x = ttl in exI)
    apply (rule_tac x = polls in exI)
    apply simp
    done
  then show ?case by simp
next
  case (8 k pos lh s products s1 s2 s4 h y s5 lh')
  obtain titles polls where
      "trace s4 = trace s @ EvQuery product_grid_items products # titles
          @ EvScrollTo (pos + scroll_amount) # polls"
    using full_round_trace [OF 8(1) 8(3) 8(4)] by blast
  then have "trace s5 = trace s @ (EvQuery product_grid_items products # titles
          @ EvScrollTo (pos + scroll_amount) # polls @ [EvBottom h y])"
    using execute_bottom_probe_trace [OF 8(5)] by simp
  then have tr: "trace s5 = trace s @ (EvQuery product_grid_items products # titles
          @ EvScrollTo (pos + scroll_amount) # polls @ [EvBottom h y])" .
  show ?case
  proof (intro allI impI)
    fix p
    assume "fst (scan_loop drv w cfg product_name k (pos + scroll_amount) lh' s5) = Inr (Some p)"
    then have "\<exists>front products earlier later segs ttl polls.
       trace (snd (scan_loop drv w cfg product_name k (pos + scroll_amount) lh' s5))
         = trace s5 @ front @ EvQuery product_grid_items products
             # concat segs @ [EvTitle p (Inr ttl), EvIntoView p None] @ polls
       \<and> products = earlier @ p # later \<and> list_all2 (passed_over product_name) earlier segs \<and> strip ttl = product_name
       \<and> (\<forall>e\<in>set polls. is_located e)"
      using 8(8) by simp
    then show "\<exists>front products earlier later segs ttl polls.
       trace (snd (scan_loop drv w cfg product_name k (pos + scroll_amount) lh' s5))
         = trace s @ front @ EvQuery product_grid_items products
             # concat segs @ [EvTitle p (Inr ttl), EvIntoView p None] @ polls
       \<and> products = earlier @ p # later \<and> list_all2 (passed_over product_name) earlier segs \<and> strip ttl = product_name
       \<and> (\<forall>e\<in>set polls. is_located e)"
      by (rule found_shift [OF tr])
  qed
qed simp_all

lemma scan_loop_bounded:
  "\<exists>evs j. trace (snd (scan_loop drv w cfg product_name k pos lh s)) = trace s @ evs
     \<and> j \<le> k \<and> scroll_targets evs = ramp pos j
     \<and> (\<forall>before e later. evs = before @ e # later \<and> at_bottom e
           \<longrightarrow> later = [] \<and> fst (scan_loop drv w cfg product_name k pos lh s) = Inr None)"
proof (rule scan_loop_rule [where P = "\<lambda>k pos lh s res.
   \<exists>evs j. trace (snd res) = trace s @ evs
     \<and> j \<le> k \<and> scroll_targets evs = ramp pos j
     \<and> (\<forall>before e later. evs = before @ e # later \<and> at_bottom e
           \<longrightarrow> later = [] \<and> fst res = Inr None)"], goal_cases)
  case (1 pos lh s)
  show ?case
    apply (rule exI [of _ "[]"])
    apply (rule exI [of _ 0])
    apply (simp add: scroll_targets_def)
    done
next
  case (2 k pos lh s s1 e s3)
  obtain polls where polls:
      "trace s3 = trace s @ EvQuery product_grid_items [] # EvScrollTo (pos + scroll_amount) # polls"
      "\<forall>e\<in>set polls. quiet e"
    using empty_round_trace [OF 2(1) 2(2)] by blast
  let ?A = "EvQuery product_grid_items [] # EvScrollTo (pos + scroll_amount) # polls"
  have nb: "\<forall>x\<in>set ?A. \<not> at_bottom x" using polls(2) by (auto dest: quiet_not_at_bottom)
  show ?case
    using polls(1) quiet_scroll_targets [OF polls(2)] no_at_bottom [OF nb]
    apply (rule_tac x = ?A in exI)
    apply (rule_tac x = "Suc 0" in exI)
    apply (simp add: scroll_targets_Cons ramp_Suc)
    done
next
  case (3 k pos lh s s1 n s3)
  obtain polls where polls:
      "trace s3 = trace s @ EvQuery product_grid_items [] # EvScrollTo (pos + scroll_amount) # polls"
      "\<forall>e\<in>set polls. quiet e"
    using empty_round_trace [OF 3(1) 3(2)] by blast
  let ?A = "EvQuery product_grid_items [] # EvScrollTo (pos + scroll_amount) # polls"
  let ?res = "scan_loop drv w cfg product_name k (pos + scroll_amount) lh s3"
  have nb: "\<forall>x\<in>set ?A. \<not> at_bottom x" using polls(2) by (auto dest: quiet_not_at_bottom)
  obtain evs j where ih: "trace (snd ?res) = trace s3 @ evs" "j \<le> k"
      "scroll_targets evs = ramp (pos + scroll_amount) j"
      "\<forall>before e later. evs = before @ e # later \<and> at_bottom e
           \<longrightarrow> later = [] \<and> fst ?res = Inr None"
    using 3(3) by blast
  show ?case
    using ih(1,2,3) polls(1) quiet_scroll_targets [OF polls(2)]
      at_bottom_prefix [OF nb ih(4)]
    apply (rule_tac x = "?A @ evs" in exI)
    apply (rule_tac x = "Suc j" in exI)
    apply (simp add: scroll_targets_Cons ramp_Suc)
    done
next
  case (4 k pos lh s products s1 e s2)
  obtain titles where titles: "trace s2 = trace s1 @ titles" "\<forall>e\<in>set titles. quiet e"
    using scan_products_quiet [OF 4(3)] by blast
  let ?A = "EvQuery product_grid_items products # titles"
  have nb: "\<forall>x\<in>set ?A. \<not> at_bottom x" using titles(2) by (auto dest: quiet_not_at_bottom)
  show ?case
    using titles(1) quiet_scroll_targets [OF titles(2)] find_elements_trace [OF 4(1)]
      no_at_bottom [OF nb]
    apply (rule_tac x = ?A in exI)
    apply (rule_tac x = 0 in exI)
    apply (simp add: scroll_targets_Cons)
    done
next
  case (5 k pos lh s products s1 p s2)
  obtain titles where titles: "trace s2 = trace s1 @ titles" "\<forall>e\<in>set titles. quiet e"
    using scan_products_quiet [OF 5(3)] by blast
  let ?A = "EvQuery product_grid_items products # titles"
  have nb: "\<forall>x\<in>set ?A. \<not> at_bottom x" using titles(2) by (auto dest: quiet_not_at_bottom)
  show ?case
    using titles(1) quiet_scroll_targets [OF titles(2)] find_elements_trace [OF 5(1)]
      no_at_bottom [OF nb]
    apply (rule_tac x = ?A in exI)
    apply (rule_tac x = 0 in exI)
    apply (simp add: scroll_targets_Cons)
    done
next
  case (6 k pos lh s products s1 s2 e s4)
  then show ?case
    using wait_for_lazy_content_no_error [of drv w cfg "length products"
        "execute_scroll_to drv (pos + scroll_amount) s2"] by simp
next
  case (7 k pos lh s products s1 s2 s4 h y s5)
  obtain titles polls where tr:
      "trace s4 = trace s @ EvQuery product_grid_items products # titles
          @ EvScrollTo (pos + scroll_amount) # polls"
      "\<forall>e\<in>set titles. quiet e" "\<forall>e\<in>set polls. quiet e"
    using full_round_trace [OF 7(1) 7(3) 7(4)] by blast
  let ?A = "EvQuery product_grid_items products # titles @ EvScrollTo (pos + scroll_amount) # polls"
  have nb: "\<forall>x\<in>set ?A. \<not> at_bottom x" using tr(2,3) by (auto dest: quiet_not_at_bottom)
  have last: "\<forall>before x later. [EvBottom h y] = before @ x # later \<and> at_bottom x
           \<longrightarrow> later = []"
    by (auto simp: Cons_eq_append_conv)
  show ?case
    using tr(1) quiet_scroll_targets [OF tr(2)] quiet_scroll_targets [OF tr(3)]
      execute_bottom_probe_trace [OF 7(5)] at_bottom_prefix [OF nb last]
    apply (rule_tac x = "?A @ [EvBottom h y]" in exI)
    apply (rule_tac x = "Suc 0" in exI)
    apply (simp add: scroll_targets_Cons ramp_Suc)
    done
next
  case (8 k pos lh s products s1 s2 s4 h y s5 lh')
  obtain titles polls where tr:
      "trace s4 = trace s @ EvQuery product_grid_items products # titles
          @ EvScrollTo (pos + scroll_amount) # polls"
      "\<forall>e\<in>set titles. quiet e" "\<forall>e\<in>set polls. quiet e"
    using full_round_trace [OF 8(1) 8(3) 8(4)] by blast
  let ?A = "EvQuery product_grid_items products # titles @ EvScrollTo (pos + scroll_amount) # polls
      @ [EvBottom h y]"
  let ?res = "scan_loop drv w cfg product_name k (pos + scroll_amount) lh' s5"
  have nb: "\<forall>x\<in>set ?A. \<not> at_bottom x" using tr(2,3) 8(6) by (auto dest: quiet_not_at_bottom)
  have t5: "trace s5 = trace s @ ?A"
    using tr(1) execute_bottom_probe_trace [OF 8(5)] by simp
  obtain evs j where ih: "trace (snd ?res) = trace s5 @ evs" "j \<le> k"
      "scroll_targets evs = ramp (pos + scroll_amount) j"
      "\<forall>before e later. evs = before @ e # later \<and> at_bottom e
           \<longrightarrow> later = [] \<and> fst ?res = Inr None"
    using 8(8) by blast
  show ?case
    using ih(1,2,3) t5 quiet_scroll_targets [OF tr(2)] quiet_scroll_targets [OF tr(3)]
      at_bottom_prefix [OF nb ih(4)]
    apply (rule_tac x = "?A @ evs" in exI)
    apply (rule_tac x = "Suc j" in exI)
    apply (simp add: scroll_targets_Cons ramp_Suc)
    done
qed

subsection \<open>The final check\<close>

lemma final_check_round:
  assumes "final_check drv w cfg product_name s = (r, s')"
  shows "(\<exists>polls. r = Inl TimeoutException
            \<and> trace s' = trace s @ EvScrollTo 0 # polls \<and> (\<forall>e\<in>set polls. quiet e))
       \<or> (\<exists>polls products s3 r4.
            trace s3 = trace s @ EvScrollTo 0 # polls @ [EvQuery product_grid_items products]
          \<and> (\<forall>e\<in>set polls. quiet e)
          \<and> final_scan drv product_name products s3 = (r4, s')
          \<and> r = (case r4 of Inl e \<Rightarrow> Inl e | Inr (Some product) \<Rightarrow> Inr product
                   | Inr None \<Rightarrow> Inl NoSuchElementException))"
proof -
  obtain rw s2 where rw: "wait_for_elements_present drv w product_grid_items
      (Some (short_timeout cfg)) 1 (execute_scroll_to drv 0 s) = (rw, s2)"
    by (cases "wait_for_elements_present drv w product_grid_items
      (Some (short_timeout cfg)) 1 (execute_scroll_to drv 0 s)")
  obtain polls where polls: "trace s2 = trace (execute_scroll_to drv 0 s) @ polls"
      "\<forall>e\<in>set polls. quiet e"
    using wait_for_elements_present_trace [OF rw] by blast
  have t2: "trace s2 = trace s @ EvScrollTo 0 # polls"
    using polls(1) by (simp add: execute_scroll_to_trace)
  show ?thesis
  proof (cases rw)
    case (Inl e)
    then have "e = TimeoutException"
      using wait_elements_present_error [of drv w product_grid_items "Some (short_timeout cfg)" 1
          "execute_scroll_to drv 0 s" e] rw by simp
    then have "r = Inl TimeoutException \<and> s' = s2"
      using assms rw Inl by (simp add: final_check_def)
    then show ?thesis using t2 polls(2) by blast
  next
    case (Inr elements)
    obtain products s3 where q: "find_elements drv product_grid_items s2 = (products, s3)"
      by (cases "find_elements drv product_grid_items s2")
    obtain r4 s4 where fs: "final_scan drv product_name products s3 = (r4, s4)"
      by (cases "final_scan drv product_name products s3")
    have t3: "trace s3 = trace s @ EvScrollTo 0 # polls @ [EvQuery product_grid_items products]"
      using t2 find_elements_trace [OF q] by simp
    have "s' = s4 \<and> r = (case r4 of Inl e \<Rightarrow> Inl e | Inr (Some product) \<Rightarrow> Inr product
                   | Inr None \<Rightarrow> Inl NoSuchElementException)"
      using assms rw Inr q fs by (auto simp: final_check_def split: sum.splits option.splits)
    then show ?thesis using t3 polls(2) fs by blast
  qed
qed

lemma final_check_trace:
  assumes "final_check drv w cfg product_name s = (r, s')"
  shows "\<exists>evs. trace s' = trace s @ EvScrollTo 0 # evs \<and> (\<forall>e\<in>set evs. quiet e)"
proof -
  from final_check_round [OF assms] consider
    (timeout) polls where "trace s' = trace s @ EvScrollTo 0 # polls" "\<forall>e\<in>set polls. quiet e"
    | (scan) polls products s3 r4 where
      "trace s3 = trace s @ EvScrollTo 0 # polls @ [EvQuery product_grid_items products]"
      "\<forall>e\<in>set polls. quiet e" "final_scan drv product_name products s3 = (r4, s')"
    by blast
  then show ?thesis
  proof cases
    case timeout
    then show ?thesis by blast
  next
    case scan
    obtain titles where titles: "trace s' = trace s3 @ titles" "\<forall>e\<in>set titles. quiet e"
      using final_scan_quiet [OF scan(3)] by blast
    have "trace s' = trace s @ EvScrollTo 0 # (polls @ EvQuery product_grid_items products # titles)
        \<and> (\<forall>e\<in>set (polls @ EvQuery product_grid_items products # titles). quiet e)"
      using scan(1,2) titles by auto
    then show ?thesis by blast
  qed
qed

lemma final_check_found:
  assumes "final_check drv w cfg product_name s = (Inr p, s')"
  shows "\<exists>front products earlier later segs ttl polls.
       trace s' = trace s @ front @ EvQuery product_grid_items products
           # concat segs @ [EvTitle p (Inr ttl), EvIntoView p None] @ polls
       \<and> products = earlier @ p # later \<and> list_all2 (passed_over product_name) earlier segs \<and> strip ttl = product_name
       \<and> (\<forall>e\<in>set polls. is_located e)"
proof -
  from final_check_round [OF assms] obtain polls products s3 r4 where h:
      "trace s3 = trace s @ EvScrollTo 0 # polls @ [EvQuery product_grid_items products]"
      "final_scan drv product_name products s3 = (r4, s')"
      "Inr p = (case r4 of Inl e \<Rightarrow> Inl e | Inr (Some product) \<Rightarrow> Inr product
                   | Inr None \<Rightarrow> Inl NoSuchElementException)"
    by auto
  have "r4 = Inr (Some p)" using h(3) by (auto split: sum.splits option.splits)
  then obtain earlier later segs ttl where f:
      "products = earlier @ p # later" "list_all2 (passed_over product_name) earlier segs" "strip ttl = product_name"
      "trace s' = trace s3 @ concat segs @ [EvTitle p (Inr ttl), EvIntoView p None]"
    using final_scan_found [of drv product_name products s3 p s'] h(2) by blast
  show ?thesis
    using f h(1)
    apply (rule_tac x = "EvScrollTo 0 # polls" in exI)
    apply (rule_tac x = products in exI)
    apply (rule_tac x = earlier in exI)
    apply (rule_tac x = later in exI)
    apply (rule_tac x = segs in exI)
    apply (rule_tac x = ttl in exI)
    apply (rule_tac x = "[]" in exI)
    apply simp
    done
qed

lemma final_check_error:
  assumes "final_check drv w cfg product_name s = (Inl e, s')" and "skipped e"
  shows "e = NoSuchElementException
       \<and> (\<exists>front products segs.
             trace s' = trace s @ front @ EvQuery product_grid_items products
                 # concat segs
           \<and> list_all2 (passed_over product_name) products segs)"
proof -
  from final_check_round [OF assms(1)] assms(2) obtain polls products s3 r4 where h:
      "trace s3 = trace s @ EvScrollTo 0 # polls @ [EvQuery product_grid_items products]"
      "final_scan drv product_name products s3 = (r4, s')"
      "Inl e = (case r4 of Inl e \<Rightarrow> Inl e | Inr (Some product) \<Rightarrow> Inr product
                   | Inr None \<Rightarrow> Inl NoSuchElementException)"
    by (auto simp: skipped_def)
  have "r4 \<noteq> Inl e" using final_scan_error [of drv product_name products s3 e s'] h(2) assms(2)
    by auto
  then have r4: "r4 = Inr None" and e: "e = NoSuchElementException"
    using h(3) by (auto split: sum.splits option.splits)
  obtain segs where a: "list_all2 (passed_over product_name) products segs"
      "trace s' = trace s3 @ concat segs"
    using final_scan_none [of drv product_name products s3 s'] h(2) r4 by blast
  have "\<exists>front products segs.
             trace s' = trace s @ front @ EvQuery product_grid_items products
                 # concat segs
           \<and> list_all2 (passed_over product_name) products segs"
    using a h(1)
    apply (rule_tac x = "EvScrollTo 0 # polls" in exI)
    apply (rule_tac x = products in exI)
    apply (rule_tac x = segs in exI)
    apply simp
    done
  then show ?thesis using e by simp
qed

lemma find_product_by_name_unfold:
  assumes "execute_scroll_height drv s = (last_height, s0)"
    and "scan_loop drv w cfg product_name max_scrolls 0 last_height s0 = (r1, s1)"
  shows "find_product_by_name drv w cfg product_name s
     = (case r1 of Inl e \<Rightarrow> (Inl e, s1) | Inr (Some product) \<Rightarrow> (Inr product, s1)
          | Inr None \<Rightarrow> final_check drv w cfg product_name s1)"
  using assms by (simp add: find_product_by_name_def split: sum.splits option.splits)

subsection \<open>The search\<close>

lemma at_bottom_suffix:
  assumes "\<forall>x\<in>set B. \<not> at_bottom x" and "A @ B = before @ e # later" and "at_bottom e"
  shows "\<exists>mid. later = mid @ B \<and> A = before @ e # mid"
proof -
  from assms(2) consider (left) us where "A = before @ us" "us @ B = e # later"
    | (right) us where "A @ us = before" "B = us @ e # later"
    by (auto simp: append_eq_append_conv2)
  then show ?thesis
  proof cases
    case left
    show ?thesis
    proof (cases us)
      case Nil
      then have "e \<in> set B" using left by auto
      then show ?thesis using assms(1,3) by blast
    next
      case (Cons u us')
      then show ?thesis using left by simp
    qed
  next
    case right
    then have "e \<in> set B" by auto
    then show ?thesis using assms(1,3) by blast
  qed
qed

lemma find_product_by_name_error:
  assumes "find_product_by_name drv w cfg product_name s = (Inl e, s')" and "skipped e"
  shows "(e = NoSuchElementException
          \<and> (\<exists>front products segs.
                trace s' = trace s @ front @ EvQuery product_grid_items products # concat segs
              \<and> list_all2 (passed_over product_name) products segs))
       \<or> (e = StaleElementReferenceException
          \<and> (\<exists>front. trace s' = trace s @ front
                @ [EvLocated (presence_of_element_located product_grid_items) (Inl e)]))"
proof -
  obtain last_height s0 where sh: "execute_scroll_height drv s = (last_height, s0)"
    by (cases "execute_scroll_height drv s")
  obtain r1 s1 where lp: "scan_loop drv w cfg product_name max_scrolls 0 last_height s0 = (r1, s1)"
    by (cases "scan_loop drv w cfg product_name max_scrolls 0 last_height s0")
  have t0: "trace s0 = trace s @ [EvScrollHeight last_height]"
    by (rule execute_scroll_height_trace [OF sh])
  obtain evs1 where t1: "trace s1 = trace s0 @ evs1"
    using scan_loop_bounded [of drv w cfg product_name max_scrolls 0 last_height s0] lp by auto
  have u: "(case r1 of Inl e \<Rightarrow> (Inl e, s1) | Inr (Some p) \<Rightarrow> (Inr p, s1)
          | Inr None \<Rightarrow> final_check drv w cfg product_name s1) = (Inl e, s')"
    using find_product_by_name_unfold [OF sh lp] assms(1) by simp
  show ?thesis
  proof (cases "r1 = Inl e")
    case True
    then have s1: "s' = s1" using u by simp
    obtain front where f: "e = StaleElementReferenceException"
        "trace s1 = trace s0 @ front
            @ [EvLocated (presence_of_element_located product_grid_items) (Inl e)]"
      using scan_loop_error [of drv w cfg product_name max_scrolls 0 last_height s0] lp True
        assms(2) by auto
    have "trace s' = trace s @ (EvScrollHeight last_height # front)
            @ [EvLocated (presence_of_element_located product_grid_items) (Inl e)]"
      using f(2) t0 s1 by simp
    then have "\<exists>front. trace s' = trace s @ front
            @ [EvLocated (presence_of_element_located product_grid_items) (Inl e)]"
      by blast
    then show ?thesis using f(1) by simp
  next
    case False
    have fc: "final_check drv w cfg product_name s1 = (Inl e, s')"
      using u False by (auto split: sum.splits option.splits)
    obtain front products segs where h: "e = NoSuchElementException"
        "trace s' = trace s1 @ front @ EvQuery product_grid_items products # concat segs"
        "list_all2 (passed_over product_name) products segs"
      using final_check_error [OF fc assms(2)] by blast
    have "\<exists>front products segs.
               trace s' = trace s @ front @ EvQuery product_grid_items products # concat segs
             \<and> list_all2 (passed_over product_name) products segs"
      using h t0 t1
      apply (rule_tac x = "EvScrollHeight last_height # evs1 @ front" in exI)
      apply (rule_tac x = products in exI)
      apply (rule_tac x = segs in exI)
      apply simp
      done
    then show ?thesis using h(1) by simp
  qed
qed

text \<open>
  C1, as stated, fails: the node returned need not be the first queried tile whose title
  matches. On the page \<open>stale_shop\<close> the tiles 2 and 3 are both titled Lace Bra and
  tile 2 goes stale when it is scrolled into view: the \<^verbatim>\<open>except\<close> clause of the
  scan passes it over and the search returns tile 3.
\<close>

theorem later_match_is_returned_counterexample:
  "fst (find_product_by_name stale_shop (BasePage_init demo_config) demo_config ''Lace Bra''
          (start (0, 0))) = Inr 3
   \<and> drop 9 (trace (snd (find_product_by_name stale_shop (BasePage_init demo_config) demo_config
          ''Lace Bra'' (start (0, 0)))))
       = [EvQuery product_grid_items [0, 1, 2, 3], EvTitle 0 (Inr ''Silk Slip''),
          EvTitle 1 (Inl StaleElementReferenceException),
          EvTitle 2 (Inr ([CHR 0xC2, CHR 0xA0] @ ''Lace Bra '')),
          EvIntoView 2 (Some StaleElementReferenceException),
          EvTitle 3 (Inr ''Lace Bra''), EvIntoView 3 None,
          EvLocated (presence_of_element_located title_locator) (Inr (Some 0))]
   \<and> strip ([CHR 0xC2, CHR 0xA0] @ ''Lace Bra '') = ''Lace Bra''"
  by code_simp

text \<open>
  C1, amended: whenever \<^verbatim>\<open>find_product_by_name\<close> returns a node, the log ends with
  the query of the product tiles that answered \<open>products\<close>, one segment for each tile
  before the node in that list, the title lookup of the node, whose stripped title is the
  product name, the scroll of the node into view, which did not raise, and nothing but the
  polls of the wait that follows. Each tile before the node was passed over: its title
  lookup failed or answered another title, or its title matched and the scroll into view
  or the wait after it raised NoSuchElementException or StaleElementReferenceException.
  So the node is the first tile of the queried list, in document order, whose title
  matches and whose scroll into view and wait go through, and no scroll step follows the
  match.
\<close>

theorem first_usable_match_is_returned:
  assumes "find_product_by_name drv w cfg product_name s = (Inr product, s')"
  shows "\<exists>front products earlier later segs ttl polls.
       trace s' = trace s @ front @ EvQuery product_grid_items products
           # concat segs @ [EvTitle product (Inr ttl), EvIntoView product None] @ polls
       \<and> products = earlier @ product # later
       \<and> list_all2 (passed_over product_name) earlier segs \<and> strip ttl = product_name
       \<and> (\<forall>e\<in>set polls. is_located e)"
proof -
  obtain last_height s0 where sh: "execute_scroll_height drv s = (last_height, s0)"
    by (cases "execute_scroll_height drv s")
  obtain r1 s1 where lp: "scan_loop drv w cfg product_name max_scrolls 0 last_height s0 = (r1, s1)"
    by (cases "scan_loop drv w cfg product_name max_scrolls 0 last_height s0")
  have t0: "trace s0 = trace s @ [EvScrollHeight last_height]"
    by (rule execute_scroll_height_trace [OF sh])
  obtain evs1 where t1: "trace s1 = trace s0 @ evs1"
    using scan_loop_bounded [of drv w cfg product_name max_scrolls 0 last_height s0] lp by auto
  have u: "(case r1 of Inl e \<Rightarrow> (Inl e, s1) | Inr (Some p) \<Rightarrow> (Inr p, s1)
          | Inr None \<Rightarrow> final_check drv w cfg product_name s1) = (Inr product, s')"
    using find_product_by_name_unfold [OF sh lp] assms by simp
  consider (loop) "r1 = Inr (Some product)" "s1 = s'"
    | (final) "r1 = Inr None" "final_check drv w cfg product_name s1 = (Inr product, s')"
    using u by (auto split: sum.splits option.splits)
  then show ?thesis
  proof cases
    case loop
    have "\<exists>front products earlier later segs ttl polls.
       trace s' = trace s0 @ front @ EvQuery product_grid_items products
           # concat segs @ [EvTitle product (Inr ttl), EvIntoView product None] @ polls
       \<and> products = earlier @ product # later
       \<and> list_all2 (passed_over product_name) earlier segs \<and> strip ttl = product_name
       \<and> (\<forall>e\<in>set polls. is_located e)"
      using scan_loop_found [of drv w cfg product_name max_scrolls 0 last_height s0] lp loop
      by simp
    then show ?thesis by (rule found_shift [OF t0])
  next
    case final
    have t: "trace s1 = trace s @ (EvScrollHeight last_height # evs1)"
      using t0 t1 by simp
    show ?thesis by (rule found_shift [OF t final_check_found [OF final(2)]])
  qed
qed

theorem first_usable_match_is_returned_witness:
  "fst (find_product_by_name stale_shop (BasePage_init demo_config) demo_config ''Lace Bra''
          (start (0, 0))) = Inr 3
   \<and> passed_over ''Lace Bra'' (2 :: nat)
        [EvTitle 2 (Inr ([CHR 0xC2, CHR 0xA0] @ ''Lace Bra '')),
         EvIntoView 2 (Some StaleElementReferenceException)]
   \<and> (\<exists>front products earlier later segs ttl polls.
        trace (snd (find_product_by_name stale_shop (BasePage_init demo_config) demo_config
          ''Lace Bra'' (start (0, 0))))
          = trace (start (0, 0) :: (int \<times> int, nat) session) @ front @ EvQuery product_grid_items products
             # concat segs @ [EvTitle 3 (Inr ttl), EvIntoView 3 None] @ polls
        \<and> products = earlier @ 3 # later
        \<and> list_all2 (passed_over ''Lace Bra'') earlier segs \<and> strip ttl = ''Lace Bra''
        \<and> (\<forall>e\<in>set polls. is_located e))"
proof -
  have r: "fst (find_product_by_name stale_shop (BasePage_init demo_config) demo_config ''Lace Bra''
          (start (0, 0))) = Inr 3"
    by code_simp
  have t: "passed_over ''Lace Bra'' (2 :: nat)
        [EvTitle 2 (Inr ([CHR 0xC2, CHR 0xA0] @ ''Lace Bra '')),
         EvIntoView 2 (Some StaleElementReferenceException)]"
    by code_simp
  have h: "find_product_by_name stale_shop (BasePage_init demo_config) demo_config ''Lace Bra''
          (start (0, 0))
      = (Inr 3, snd (find_product_by_name stale_shop (BasePage_init demo_config) demo_config
          ''Lace Bra'' (start (0, 0))))"
    using r by (metis prod.collapse)
  show ?thesis by (rule conjI [OF r conjI [OF t first_usable_match_is_returned [OF h]]])
qed

text \<open>
  C2: \<^verbatim>\<open>find_product_by_name\<close> returns for every driver (it is a total function:
  the loop runs over a range of \<^verbatim>\<open>max_scrolls\<close> and every wait has a bounded number
  of polls). Its scroll steps are the first \<open>j\<close> of the offsets 400, 800, ... for some
  \<open>j\<close> of at most 100, followed by nothing or by the scroll to the top of the final
  check; and after a bottom test that finds the scroll position within 500 pixels of the
  page height the only scroll is that scroll to the top. The bottom test is the one the
  loop makes at the end of every iteration that found tiles and no match; an iteration
  that finds no tile scrolls on without reading the position.
\<close>

theorem scan_is_bounded:
  "\<exists>r s' evs j. find_product_by_name drv w cfg product_name s = (r, s')
     \<and> trace s' = trace s @ evs \<and> j \<le> max_scrolls
     \<and> (scroll_targets evs = ramp 0 j \<or> scroll_targets evs = ramp 0 j @ [0])
     \<and> (\<forall>before e later. evs = before @ e # later \<and> at_bottom e
           \<longrightarrow> scroll_targets later = [0])"
proof -
  obtain last_height s0 where sh: "execute_scroll_height drv s = (last_height, s0)"
    by (cases "execute_scroll_height drv s")
  obtain r1 s1 where lp: "scan_loop drv w cfg product_name max_scrolls 0 last_height s0 = (r1, s1)"
    by (cases "scan_loop drv w cfg product_name max_scrolls 0 last_height s0")
  have t0: "trace s0 = trace s @ [EvScrollHeight last_height]"
    by (rule execute_scroll_height_trace [OF sh])
  obtain evs1 j where b: "trace s1 = trace s0 @ evs1" "j \<le> max_scrolls"
      "scroll_targets evs1 = ramp 0 j"
      "\<forall>before e later. evs1 = before @ e # later \<and> at_bottom e
           \<longrightarrow> later = [] \<and> r1 = Inr None"
    using scan_loop_bounded [of drv w cfg product_name max_scrolls 0 last_height s0] lp by auto
  have nh: "\<forall>x\<in>set [EvScrollHeight last_height]. \<not> at_bottom x" by simp
  have b1: "\<forall>before e later. [EvScrollHeight last_height] @ evs1 = before @ e # later \<and> at_bottom e
           \<longrightarrow> later = [] \<and> r1 = Inr None"
    by (rule at_bottom_prefix [OF nh b(4)])
  have t1: "trace s1 = trace s @ (EvScrollHeight last_height # evs1)"
    using t0 b(1) by simp
  have st1: "scroll_targets (EvScrollHeight last_height # evs1) = ramp 0 j"
    using b(3) by (simp add: scroll_targets_Cons)
  have u: "find_product_by_name drv w cfg product_name s
     = (case r1 of Inl e \<Rightarrow> (Inl e, s1) | Inr (Some p) \<Rightarrow> (Inr p, s1)
          | Inr None \<Rightarrow> final_check drv w cfg product_name s1)"
    by (rule find_product_by_name_unfold [OF sh lp])
  show ?thesis
  proof (cases "r1 = Inr None")
    case False
    then obtain r where r: "find_product_by_name drv w cfg product_name s = (r, s1)"
      using u by (auto split: sum.splits option.splits)
    have bot: "\<forall>before e later. EvScrollHeight last_height # evs1 = before @ e # later \<and> at_bottom e
           \<longrightarrow> scroll_targets later = [0]"
      using b1 False by auto
    show ?thesis
      using r t1 b(2) st1 bot
      apply (rule_tac x = r in exI)
      apply (rule_tac x = s1 in exI)
      apply (rule_tac x = "EvScrollHeight last_height # evs1" in exI)
      apply (rule_tac x = j in exI)
      apply simp
      done
  next
    case True
    obtain r s' where fc: "final_check drv w cfg product_name s1 = (r, s')"
      by (cases "final_check drv w cfg product_name s1")
    have r: "find_product_by_name drv w cfg product_name s = (r, s')"
      using u True fc by simp
    obtain fevs where f: "trace s' = trace s1 @ EvScrollTo 0 # fevs" "\<forall>e\<in>set fevs. quiet e"
      using final_check_trace [OF fc] by blast
    let ?A = "EvScrollHeight last_height # evs1"
    let ?B = "EvScrollTo 0 # fevs"
    have nb: "\<forall>x\<in>set ?B. \<not> at_bottom x" using f(2) by (auto dest: quiet_not_at_bottom)
    have stB: "scroll_targets ?B = [0]"
      using quiet_scroll_targets [OF f(2)] by (simp add: scroll_targets_Cons)
    have bot: "\<forall>before e later. ?A @ ?B = before @ e # later \<and> at_bottom e
           \<longrightarrow> scroll_targets later = [0]"
    proof (intro allI impI)
      fix before e later
      assume h: "?A @ ?B = before @ e # later \<and> at_bottom e"
      then obtain mid where mid: "later = mid @ ?B" "?A = before @ e # mid"
        using at_bottom_suffix [OF nb, of ?A before e later] by blast
      then have "mid = []" using b1 h by auto
      then show "scroll_targets later = [0]" using mid(1) stB by simp
    qed
    have t: "trace s' = trace s @ (?A @ ?B)" using t1 f(1) by simp
    have st: "scroll_targets (?A @ ?B) = ramp 0 j @ [0]"
      using scroll_targets_append [of ?A ?B] st1 stB by (simp only:)
    show ?thesis
      using r t b(2) st bot
      apply (rule_tac x = r in exI)
      apply (rule_tac x = s' in exI)
      apply (rule_tac x = "?A @ ?B" in exI)
      apply (rule_tac x = j in exI)
      apply simp
      done
  qed
qed

theorem scan_is_bounded_witness:
  "at_bottom (EvBottom 2400 2000 :: nat event)
   \<and> trace (snd (find_product_by_name (shop True) (BasePage_init demo_config) demo_config
          ''Missing'' (start (0, 0))))
       = take 32 (trace (snd (find_product_by_name (shop True) (BasePage_init demo_config)
            demo_config ''Missing'' (start (0, 0)))))
         @ EvBottom 2400 2000
         # drop 33 (trace (snd (find_product_by_name (shop True) (BasePage_init demo_config)
            demo_config ''Missing'' (start (0, 0)))))
   \<and> scroll_targets (drop 33 (trace (snd (find_product_by_name (shop True)
          (BasePage_init demo_config) demo_config ''Missing'' (start (0, 0)))))) = [0]
   \<and> scroll_targets (trace (snd (find_product_by_name (shop True) (BasePage_init demo_config)
          demo_config ''Missing'' (start (0, 0))))) = [400, 800, 1200, 1600, 2000, 0]"
proof -
  let ?run = "find_product_by_name (shop True) (BasePage_init demo_config) demo_config
      ''Missing'' (start (0, 0))"
  have ab: "at_bottom (EvBottom 2400 2000 :: nat event)" by simp
  have d: "trace (snd ?run) = take 32 (trace (snd ?run)) @ EvBottom 2400 2000 # drop 33 (trace (snd ?run))"
    by code_simp
  have all: "scroll_targets (trace (snd ?run)) = [400, 800, 1200, 1600, 2000, 0]"
    by code_simp
  obtain r s' evs where h: "?run = (r, s')"
      "trace s' = trace (start (0, 0) :: (int \<times> int, nat) session) @ evs"
      "\<forall>before e later. evs = before @ e # later \<and> at_bottom e \<longrightarrow> scroll_targets later = [0]"
    using scan_is_bounded [of "shop True" "BasePage_init demo_config" demo_config "''Missing''"
        "start (0, 0)"] by blast
  have "evs = trace (snd ?run)" using h(1,2) by (simp add: start_def)
  then have "scroll_targets (drop 33 (trace (snd ?run))) = [0]"
    using h(3) d ab by blast
  then show ?thesis using ab d all by blast
qed

text \<open>
  C3, as the code behaves: when the scan is exhausted the final check scrolls to the top
  and waits for at least one product tile before it queries the tiles again; that wait is
  not guarded, so on a page that shows no tile at the top the search raises
  TimeoutException, neither returning a node nor raising NoSuchElementException. The page
  here shows the tiles of the current scroll offset only; the scan ends at the bottom
  without a match.
\<close>

theorem final_check_times_out_on_empty_page:
  "fst (scan_loop (shop False) (BasePage_init demo_config) demo_config ''Missing'' max_scrolls 0
          2400 (snd (execute_scroll_height (shop False) (start (0, 0))))) = Inr None
   \<and> fst (find_product_by_name (shop False) (BasePage_init demo_config) demo_config ''Missing''
          (start (0, 0))) = Inl TimeoutException
   \<and> drop 32 (trace (snd (find_product_by_name (shop False) (BasePage_init demo_config)
          demo_config ''Missing'' (start (0, 0)))))
       = [EvBottom 2400 2000, EvScrollTo 0, EvQuery product_grid_items [],
          EvQuery product_grid_items [], EvQuery product_grid_items []]"
  by code_simp

text \<open>
  C4: a title lookup that fails with NoSuchElementException or
  StaleElementReferenceException skips the node: in the scan of the loop and in the scan
  of the final check, scanning a list whose first node fails so is scanning the rest of
  the list from the session after the failed lookup, so a later node is matched as it
  would be without the failing one. No exception of a title lookup of these two classes
  leaves \<^verbatim>\<open>find_product_by_name\<close>: when the search raises one of the two, it is
  either the NoSuchElementException that the final check raises itself after its scan
  has passed over every tile it queried, or a StaleElementReferenceException that the
  last event of the log shows raised by a poll of the wait for product tiles on a page
  that showed none.
\<close>

theorem title_failures_are_skipped:
  assumes "product_title drv product s = (Inl e, s1)"
    and "e = NoSuchElementException \<or> e = StaleElementReferenceException"
  shows "scan_products drv w cfg product_name (product # rest) s
           = scan_products drv w cfg product_name rest s1
       \<and> final_scan drv product_name (product # rest) s = final_scan drv product_name rest s1
       \<and> (find_product_by_name drv w cfg product_name s0 = (Inl x, s0') \<and> skipped x
            \<longrightarrow> (x = NoSuchElementException
                  \<and> (\<exists>front products segs.
                        trace s0' = trace s0 @ front @ EvQuery product_grid_items products
                            # concat segs
                      \<and> list_all2 (passed_over product_name) products segs))
                \<or> (x = StaleElementReferenceException
                  \<and> (\<exists>front. trace s0' = trace s0 @ front
                        @ [EvLocated (presence_of_element_located product_grid_items) (Inl x)])))"
proof -
  have sk: "skipped e" using assms(2) by (simp add: skipped_def)
  have a: "scan_products drv w cfg product_name (product # rest) s
           = scan_products drv w cfg product_name rest s1"
    using assms(1) sk by simp
  have b: "final_scan drv product_name (product # rest) s = final_scan drv product_name rest s1"
    using assms(1) sk by simp
  have c: "find_product_by_name drv w cfg product_name s0 = (Inl x, s0') \<and> skipped x
            \<longrightarrow> (x = NoSuchElementException
                  \<and> (\<exists>front products segs.
                        trace s0' = trace s0 @ front @ EvQuery product_grid_items products
                            # concat segs
                      \<and> list_all2 (passed_over product_name) products segs))
                \<or> (x = StaleElementReferenceException
                  \<and> (\<exists>front. trace s0' = trace s0 @ front
                        @ [EvLocated (presence_of_element_located product_grid_items) (Inl x)]))"
    using find_product_by_name_error [of drv w cfg product_name s0 x s0'] by blast
  show ?thesis using a b c by simp
qed

theorem title_failures_are_skipped_witness:
  "product_title (shop True) 1 (start (800, 800))
     = (Inl StaleElementReferenceException, snd (product_title (shop True) 1 (start (800, 800))))
   \<and> scan_products (shop True) (BasePage_init demo_config) demo_config ''Lace Bra'' [1, 2, 3]
        (start (800, 800))
     = scan_products (shop True) (BasePage_init demo_config) demo_config ''Lace Bra'' [2, 3]
        (snd (product_title (shop True) 1 (start (800, 800))))
   \<and> fst (scan_products (shop True) (BasePage_init demo_config) demo_config ''Lace Bra'' [1, 2, 3]
        (start (800, 800))) = Inr (Some 2)
   \<and> fst (find_product_by_name (shop True) (BasePage_init demo_config) demo_config ''Missing''
        (start (0, 0))) = Inl NoSuchElementException
   \<and> (\<exists>front products segs.
        trace (snd (find_product_by_name (shop True) (BasePage_init demo_config) demo_config
          ''Missing'' (start (0, 0))))
          = trace (start (0, 0) :: (int \<times> int, nat) session) @ front @ EvQuery product_grid_items products
              # concat segs
        \<and> list_all2 (passed_over ''Missing'') products segs)"
proof -
  let ?run = "find_product_by_name (shop True) (BasePage_init demo_config) demo_config
      ''Missing'' (start (0, 0))"
  have f: "fst (product_title (shop True) 1 (start (800, 800))) = Inl StaleElementReferenceException"
    by code_simp
  have p: "product_title (shop True) 1 (start (800, 800))
     = (Inl StaleElementReferenceException, snd (product_title (shop True) 1 (start (800, 800))))"
    using f by (metis prod.collapse)
  have e: "StaleElementReferenceException = NoSuchElementException
      \<or> StaleElementReferenceException = StaleElementReferenceException"
    by simp
  have m: "fst (scan_products (shop True) (BasePage_init demo_config) demo_config ''Lace Bra''
        [1, 2, 3] (start (800, 800))) = Inr (Some 2)"
    by code_simp
  have n: "fst ?run = Inl NoSuchElementException" by code_simp
  have h: "?run = (Inl NoSuchElementException, snd ?run)" using n by (metis prod.collapse)
  have k: "skipped NoSuchElementException" by (simp add: skipped_def)
  note t = title_failures_are_skipped [OF p e, where w = "BasePage_init demo_config"
      and cfg = demo_config and product_name = "''Missing''" and rest = "[2, 3]"
      and ?s0.0 = "start (0, 0)" and x = NoSuchElementException and s0' = "snd ?run"]
  have q: "\<exists>front products segs.
        trace (snd ?run)
          = trace (start (0, 0) :: (int \<times> int, nat) session) @ front @ EvQuery product_grid_items products
              # concat segs
        \<and> list_all2 (passed_over ''Missing'') products segs"
    using t h k by simp
  have sc: "scan_products (shop True) (BasePage_init demo_config) demo_config ''Lace Bra'' [1, 2, 3]
        (start (800, 800))
     = scan_products (shop True) (BasePage_init demo_config) demo_config ''Lace Bra'' [2, 3]
        (snd (product_title (shop True) 1 (start (800, 800))))"
    using title_failures_are_skipped [OF p e, where w = "BasePage_init demo_config"
      and cfg = demo_config and product_name = "''Lace Bra''" and rest = "[2, 3]"
      and ?s0.0 = "start (0, 0)" and x = NoSuchElementException and s0' = "snd ?run"]
    by blast
  show ?thesis using p sc m n q by blast
qed

end
